theory Spec2Isabelle
  imports Complex_Main "HOL-Library.Multiset"
begin

section \<open>Soft Actor-Critic training script: a shallow embedding\<close>

text \<open>
  The development follows \<^verbatim>\<open>sac/main.py\<close>: the experience replay buffer, the actor and
  critic networks, the optimisation step, target smoothing and the training loop.

  Conventions.
  \<^item> Tensors hold real numbers: a vector is a \<open>real list\<close>, a batch a list of rows.
    Rounding of the 32-bit floats of the tensor library is not part of the model.
  \<^item> Random draws are arguments: the numbers that \<^verbatim>\<open>randbelow\<close> returns to
    \<^verbatim>\<open>random.sample\<close>, and the standard normal noise of the two Gaussian samplers.
  \<^item> The module constants (\<^verbatim>\<open>gamma\<close>, \<^verbatim>\<open>train_batch_size\<close>, ...) are the fields
    of a record \<open>config\<close>; \<open>default_config\<close> holds the values of the source.
  \<^item> A raise is a value \<open>Inl e\<close> of the result type, and a call that does not
    return has the result \<open>None\<close>.
  \<^item> Shape errors of the tensor library are not modelled: elementwise operations on
    rows of different length truncate, where the library would raise.
  \<^item> The loop over the episodes, the logging and the rendering are left out; the
    body of the inner loop of the main block and the action of the evaluation
    loop are modelled.
\<close>

subsection \<open>Errors\<close>

datatype py_error = IndexError | ValueError | ZeroDivisionError | TorchError | RuntimeError

subsection \<open>Configuration\<close>

record config =
  replay_buffer_size :: nat
  train_batch_size :: nat
  gamma :: real
  target_smoothing_coeff :: real
  logstd_min :: real
  logstd_max :: real
  reward_scaling :: real
  entropy_coeff :: real

definition default_config :: config where
  "default_config =
     \<lparr>replay_buffer_size = 1000000, train_batch_size = 256, gamma = 99 / 100,
      target_smoothing_coeff = 5 / 1000, logstd_min = - 20, logstd_max = 2,
      reward_scaling = 1, entropy_coeff = - (1 / 10 ^ 10)\<rparr>"

subsection \<open>Experience replay\<close>

text \<open>
  \<^verbatim>\<open>ExpReplay\<close> keeps five parallel lists. \<^verbatim>\<open>add\<close> first appends the integer
  \<^verbatim>\<open>0\<close> to each list while the buffer is below \<^verbatim>\<open>max_len\<close>, then writes the
  transition at \<^verbatim>\<open>pointer\<close>. A list cell is therefore either that placeholder
  (\<open>None\<close>) or a written value (\<open>Some v\<close>). \<^verbatim>\<open>max_len\<close> is the float
  \<^verbatim>\<open>replay_buffer_size\<close>, the float \<^verbatim>\<open>1e6\<close> in the source; the model takes
  a natural number, on which the comparison and the remainder agree with those of
  the floats.
\<close>

record ('s, 'a, 'r) ExpReplay =
  states :: "'s option list"
  actions :: "'a option list"
  rewards :: "'r option list"
  next_states :: "'s option list"
  dones :: "bool option list"
  pointer :: nat
  max_len :: nat

type_synonym ('s, 'a, 'r) exp_tuple = "'s \<times> 'a \<times> 'r \<times> 's \<times> bool"

definition ExpReplay_init :: "nat \<Rightarrow> ('s, 'a, 'r) ExpReplay" where
  "ExpReplay_init capacity =
     \<lparr>states = [], actions = [], rewards = [], next_states = [], dones = [],
      pointer = 0, max_len = capacity\<rparr>"

definition ExpReplay_len :: "('s, 'a, 'r) ExpReplay \<Rightarrow> nat" where
  "ExpReplay_len m = length (states m)"

text \<open>
  \<^verbatim>\<open>self.states[self.pointer] = state\<close> raises \<^verbatim>\<open>IndexError\<close> when the pointer is
  not below the length of the list; the remainder by a zero \<^verbatim>\<open>max_len\<close> raises
  \<^verbatim>\<open>ZeroDivisionError\<close>.
\<close>

definition add ::
  "('s, 'a, 'r) ExpReplay \<Rightarrow> ('s, 'a, 'r) exp_tuple \<Rightarrow> py_error + ('s, 'a, 'r) ExpReplay" where
  "add m exp_tuple =
     (let m1 = (if length (states m) < max_len m
                then m\<lparr>states := states m @ [None],
                       actions := actions m @ [None],
                       rewards := rewards m @ [None],
                       next_states := next_states m @ [None],
                       dones := dones m @ [None]\<rparr>
                else m);
          (state, action, reward, next_state, done) = exp_tuple;
          p = pointer m1
      in if length (states m1) \<le> p \<or> length (actions m1) \<le> p \<or> length (rewards m1) \<le> p
            \<or> length (next_states m1) \<le> p \<or> length (dones m1) \<le> p
         then Inl IndexError
         else if max_len m1 = 0 then Inl ZeroDivisionError
         else Inr (m1\<lparr>states := (states m1)[p := Some state],
                        actions := (actions m1)[p := Some action],
                        rewards := (rewards m1)[p := Some reward],
                        next_states := (next_states m1)[p := Some next_state],
                        dones := (dones m1)[p := Some done],
                        pointer := (p + 1) mod max_len m1\<rparr>))"

text \<open>A sequence of insertions; the first raise ends it.\<close>

fun add_all ::
  "('s, 'a, 'r) ExpReplay \<Rightarrow> ('s, 'a, 'r) exp_tuple list \<Rightarrow> py_error + ('s, 'a, 'r) ExpReplay" where
  "add_all m [] = Inr m"
| "add_all m (t # ts) = (case add m t of Inl e \<Rightarrow> Inl e | Inr m' \<Rightarrow> add_all m' ts)"

text \<open>
  \<^verbatim>\<open>list(zip(self.states, self.actions, self.rewards, self.next_states, self.dones))\<close>,
  the population that \<^verbatim>\<open>sample\<close> draws from.
\<close>

definition rows ::
  "('s, 'a, 'r) ExpReplay \<Rightarrow> ('s option \<times> 'a option \<times> 'r option \<times> 's option \<times> bool option) list" where
  "rows m = zip (states m) (zip (actions m) (zip (rewards m) (zip (next_states m) (dones m))))"

text \<open>
  \<^verbatim>\<open>random.sample(population, k)\<close> of the standard library. The generator is an
  argument: \<open>rnd c\<close> stands for the number that the call number \<open>c\<close> of
  \<^verbatim>\<open>randbelow\<close> returns, reduced below the bound of that call, so
  \<^verbatim>\<open>randbelow(b)\<close> is \<open>rnd c mod b\<close>; that \<^verbatim>\<open>randbelow\<close> itself returns is
  taken for granted.

  The library selects in one of two ways, by the size of the population against
  \<^verbatim>\<open>setsize = 21\<close>, raised by \<^verbatim>\<open>4 ** ceil(log(3 * k, 4))\<close> when \<open>k\<close> exceeds
  five. The exponent is the least \<open>e\<close> with \<open>3 k \<le> 4\<^sup>e\<close>, found here by counting
  up from zero (three times \<open>k\<close> is never a power of four, and for sizes that fit
  in memory the rounding of the floating-point logarithm does not change it).
\<close>

fun ceil_log4 :: "nat \<Rightarrow> nat \<Rightarrow> nat \<Rightarrow> nat" where
  "ceil_log4 0 e m = e"
| "ceil_log4 (Suc fuel) e m = (if m \<le> 4 ^ e then e else ceil_log4 fuel (Suc e) m)"

definition setsize :: "nat \<Rightarrow> nat" where
  "setsize k = (if 5 < k then 21 + 4 ^ ceil_log4 (3 * k) 0 (3 * k) else 21)"

text \<open>
  A population of at most \<^verbatim>\<open>setsize\<close> elements is copied into a pool: the
  \<open>i\<close>-th element of the result is \<^verbatim>\<open>pool[j]\<close> for \<^verbatim>\<open>j = randbelow(n - i)\<close>,
  and the last live entry of the pool then fills the vacancy.
\<close>

fun pool_loop :: "(nat \<Rightarrow> nat) \<Rightarrow> nat \<Rightarrow> 'a list \<Rightarrow> nat \<Rightarrow> nat \<Rightarrow> 'a list" where
  "pool_loop rnd n pool i 0 = []"
| "pool_loop rnd n pool i (Suc r) =
     (let j = rnd i mod (n - i)
      in pool ! j # pool_loop rnd n (pool[j := pool ! (n - i - 1)]) (Suc i) r)"

text \<open>
  For a larger population the library keeps the set of the selected indices and
  draws \<^verbatim>\<open>j = randbelow(n)\<close> again for as long as \<open>j\<close> is in the set. This
  inner loop need not end: \<open>reselect\<close> is \<open>None\<close> when every draw from call
  \<open>c\<close> on is a selected index, and otherwise the first index that is not, with
  the number of the next call.
\<close>

partial_function (option) reselect :: "(nat \<Rightarrow> nat) \<Rightarrow> nat \<Rightarrow> nat set \<Rightarrow> nat \<Rightarrow> (nat \<times> nat) option" where
  "reselect rnd n selected c =
     (if rnd c mod n \<in> selected then reselect rnd n selected (Suc c)
      else Some (rnd c mod n, Suc c))"

fun set_loop :: "(nat \<Rightarrow> nat) \<Rightarrow> 'a list \<Rightarrow> nat set \<Rightarrow> nat \<Rightarrow> nat \<Rightarrow> 'a list option" where
  "set_loop rnd population selected c 0 = Some []"
| "set_loop rnd population selected c (Suc r) =
     (case reselect rnd (length population) selected c of
        None \<Rightarrow> None
      | Some (j, c') \<Rightarrow>
          (case set_loop rnd population (insert j selected) c' r of
             None \<Rightarrow> None
           | Some result \<Rightarrow> Some (population ! j # result)))"

text \<open>
  A sample larger than the population raises \<^verbatim>\<open>ValueError\<close>. The result is
  \<open>None\<close> when the call does not return.
\<close>

definition random_sample :: "(nat \<Rightarrow> nat) \<Rightarrow> 'a list \<Rightarrow> nat \<Rightarrow> (py_error + 'a list) option" where
  "random_sample rnd population k =
     (let n = length population
      in if n < k then Some (Inl ValueError)
         else if n \<le> setsize k then Some (Inr (pool_loop rnd n population 0 k))
         else map_option Inr (set_loop rnd population {} 0 k))"

text \<open>
  \<^verbatim>\<open>ExpReplay.sample\<close>. The drawn rows are transposed by \<^verbatim>\<open>zip\<close> into five
  tuples; on an empty batch the transposition yields nothing, and unpacking nothing
  into five names raises \<^verbatim>\<open>ValueError\<close>.
\<close>

definition sample ::
  "(nat \<Rightarrow> nat) \<Rightarrow> ('s, 'a, 'r) ExpReplay \<Rightarrow> nat \<Rightarrow>
     (py_error + ('s option list \<times> 'a option list \<times> 'r option list \<times> 's option list \<times> bool option list)) option" where
  "sample rnd m batch_size =
     (case random_sample rnd (rows m) batch_size of
        None \<Rightarrow> None
      | Some (Inl e) \<Rightarrow> Some (Inl e)
      | Some (Inr b) \<Rightarrow>
          (case b of
             [] \<Rightarrow> Some (Inl ValueError)
           | _ \<Rightarrow> Some (Inr (map fst b, map (fst \<circ> snd) b, map (fst \<circ> snd \<circ> snd) b,
                             map (fst \<circ> snd \<circ> snd \<circ> snd) b, map (snd \<circ> snd \<circ> snd \<circ> snd) b))))"

subsection \<open>Tensors\<close>

type_synonym tensor1 = "real list"
type_synonym tensor2 = "real list list"

text \<open>
  Elementwise operations of two batches broadcast a row of length one against the
  other row, as the tensor library does along the last dimension.
\<close>

definition bcast :: "(real \<Rightarrow> real \<Rightarrow> real) \<Rightarrow> tensor1 \<Rightarrow> tensor1 \<Rightarrow> tensor1" where
  "bcast f x y =
     (if length x = 1 then map (f (x ! 0)) y
      else if length y = 1 then map (\<lambda>a. f a (y ! 0)) x
      else map2 f x y)"

definition tmap2 :: "(real \<Rightarrow> real \<Rightarrow> real) \<Rightarrow> tensor2 \<Rightarrow> tensor2 \<Rightarrow> tensor2" where
  "tmap2 f X Y = map2 (bcast f) X Y"

definition tmap :: "(real \<Rightarrow> real) \<Rightarrow> tensor2 \<Rightarrow> tensor2" where
  "tmap f X = map (map f) X"

text \<open>\<^verbatim>\<open>torch.mean\<close>: the sum of all entries over their number.\<close>

definition tmean :: "tensor2 \<Rightarrow> real" where
  "tmean X = sum_list (concat X) / real (length (concat X))"

subsection \<open>Layers and networks\<close>

text \<open>\<^verbatim>\<open>nn.Linear\<close>: one row of \<open>weight\<close> per output feature.\<close>

record Linear =
  weight :: tensor2
  bias :: tensor1

definition linear :: "Linear \<Rightarrow> tensor1 \<Rightarrow> tensor1" where
  "linear l x = map2 (+) (map (\<lambda>row. sum_list (map2 (*) x row)) (weight l)) (bias l)"

definition relu :: "real \<Rightarrow> real" where
  "relu x = max 0 x"

definition clamp :: "real \<Rightarrow> real \<Rightarrow> real \<Rightarrow> real" where
  "clamp x lo hi = min (max x lo) hi"

record Actor =
  fc1 :: Linear
  fc2 :: Linear
  fc_mean :: Linear
  fc_logstd :: Linear
  output_size :: nat
  action_scale :: tensor1

definition Actor_forward :: "config \<Rightarrow> Actor \<Rightarrow> tensor1 \<Rightarrow> tensor1 \<times> tensor1" where
  "Actor_forward cfg \<pi> x =
     (let x1 = map relu (linear (Actor.fc1 \<pi>) x);
          x2 = map relu (linear (Actor.fc2 \<pi>) x1);
          x_m = linear (fc_mean \<pi>) x2;
          x_ls = map (\<lambda>v. clamp v (logstd_min cfg) (logstd_max cfg)) (linear (fc_logstd \<pi>) x2)
      in (x_m, x_ls))"

text \<open>
  \<^verbatim>\<open>Normal(loc, scale).sample()\<close> with the standard normal draw \<open>eps\<close>, and
  \<^verbatim>\<open>Normal(loc, scale).log_prob(v)\<close> as the tensor library computes it.
\<close>

definition Normal_sample :: "tensor1 \<Rightarrow> tensor1 \<Rightarrow> tensor1 \<Rightarrow> tensor1" where
  "Normal_sample loc scale eps = map2 (+) loc (map2 (*) scale eps)"

definition Normal_log_prob :: "real \<Rightarrow> real \<Rightarrow> real \<Rightarrow> real" where
  "Normal_log_prob loc scale v =
     - ((v - loc) ^ 2) / (2 * scale ^ 2) - ln scale - ln (sqrt (2 * pi))"

definition get_action :: "config \<Rightarrow> Actor \<Rightarrow> tensor1 \<Rightarrow> tensor1 \<Rightarrow> tensor1" where
  "get_action cfg \<pi> state eps =
     (let (action_mean_th, action_logstd_th) = Actor_forward cfg \<pi> state;
          action_th_sampled =
            map2 (*) (map tanh (Normal_sample action_mean_th (map exp action_logstd_th) eps))
                     (action_scale \<pi>)
      in action_th_sampled)"

record QNet =
  fc1 :: Linear
  fc2 :: Linear
  fc3 :: Linear

definition QNet_forward :: "QNet \<Rightarrow> tensor1 \<Rightarrow> tensor1 \<Rightarrow> tensor1" where
  "QNet_forward q s a =
     (let x = map relu (linear (QNet.fc1 q) s);
          x = map relu (linear (QNet.fc2 q) (x @ a));
          x = linear (QNet.fc3 q) x
      in x)"

text \<open>
  The class \<^verbatim>\<open>VNet\<close> is imported from \<^verbatim>\<open>sac.networks\<close>. The network is
  represented by the list of its parameter tensors, in the order of
  \<^verbatim>\<open>parameters()\<close>, each tensor flattened; its forward function is the field
  \<open>VNet_forward\<close> of the record below. That it yields one number per state is
  taken from the specification (\<^verbatim>\<open>V(state) -> scalar\<close>).
\<close>

type_synonym VNet = "tensor1 list"

text \<open>The parameters of the actor that \<^verbatim>\<open>policy.parameters()\<close> hands to its optimizer.\<close>

type_synonym Actor_params = "Linear \<times> Linear \<times> Linear \<times> Linear"

definition Actor_parameters :: "Actor \<Rightarrow> Actor_params" where
  "Actor_parameters \<pi> = (Actor.fc1 \<pi>, Actor.fc2 \<pi>, fc_mean \<pi>, fc_logstd \<pi>)"

definition Actor_load :: "Actor \<Rightarrow> Actor_params \<Rightarrow> Actor" where
  "Actor_load \<pi> \<theta> =
     (case \<theta> of (l1, l2, lm, ls) \<Rightarrow>
        \<pi>\<lparr>Actor.fc1 := l1, Actor.fc2 := l2, fc_mean := lm, fc_logstd := ls\<rparr>)"

subsection \<open>Optimizers\<close>

text \<open>
  The three statements \<^verbatim>\<open>opt.zero_grad(); J.backward(); opt.step()\<close> are one
  application of the optimizer to the parameters it was built on. The update rule
  (\<^verbatim>\<open>optim.Adam\<close>) is not modelled: it is a field of the record \<open>torch\<close>, a
  function of the optimizer state \<open>'o\<close>, of the loss as a function of the
  optimizer's parameters, and of their current values. A term that the source
  detaches, or that does not depend on these parameters, is a constant of that
  function.

  The value network and the critics are stepped before anything they were
  recorded with has changed. The policy is not: its loss is recorded in the forward
  pass with the critics of that pass, and \<^verbatim>\<open>q_net_optimizer.step()\<close> overwrites the
  weights of the critics in place before \<^verbatim>\<open>J_pi.backward()\<close> runs. What the
  library does then is its own affair: it raises \<^verbatim>\<open>RuntimeError\<close> when it checks
  the versions of the tensors it saved, and otherwise walks back through the
  overwritten weights. The step of the policy optimizer is therefore a function of
  the loss as a function of the critics and of the actor parameters, of the critics
  of the forward pass, of the critics as they are at the backward pass, and of the
  actor parameters, and it may raise.
\<close>

record 'o torch =
  VNet_forward :: "VNet \<Rightarrow> tensor1 \<Rightarrow> real"
  Adam_v :: "'o \<Rightarrow> (VNet \<Rightarrow> real) \<Rightarrow> VNet \<Rightarrow> 'o \<times> VNet"
  Adam_q :: "'o \<Rightarrow> (QNet \<times> QNet \<Rightarrow> real) \<Rightarrow> QNet \<times> QNet \<Rightarrow> 'o \<times> QNet \<times> QNet"
  Adam_pi :: "'o \<Rightarrow> (QNet \<times> QNet \<Rightarrow> Actor_params \<Rightarrow> real) \<Rightarrow> QNet \<times> QNet \<Rightarrow> QNet \<times> QNet \<Rightarrow>
                Actor_params \<Rightarrow> py_error + 'o \<times> Actor_params"

record 'o agent =
  policy :: Actor
  q1_net :: QNet
  q2_net :: QNet
  v_net :: VNet
  v_target_net :: VNet
  actor_optimizer :: 'o
  q_net_optimizer :: 'o
  v_net_optimizer :: 'o
  memory :: "(tensor1, tensor1, real) ExpReplay"

subsection \<open>The optimisation step\<close>

text \<open>
  \<^verbatim>\<open>torch.tensor\<close> of a sampled column. A placeholder among vectors raises; among
  rewards and done flags the placeholder \<^verbatim>\<open>0\<close> is a number like any other.
\<close>

definition torch_tensor :: "tensor1 option list \<Rightarrow> py_error + tensor2" where
  "torch_tensor xs = (if None \<in> set xs then Inl TorchError else Inr (map the xs))"

definition rewards_tensor :: "real option list \<Rightarrow> tensor2" where
  "rewards_tensor rew_b = map (\<lambda>r. [case r of None \<Rightarrow> 0 | Some v \<Rightarrow> v]) rew_b"

definition dones_tensor :: "bool option list \<Rightarrow> tensor2" where
  "dones_tensor dn_b = map (\<lambda>d. [case d of None \<Rightarrow> 0 | Some b \<Rightarrow> if b then 1 else 0]) dn_b"

definition Q_batch :: "QNet \<Rightarrow> tensor2 \<Rightarrow> tensor2 \<Rightarrow> tensor2" where
  "Q_batch q S A = map2 (QNet_forward q) S A"

definition V_batch :: "'o torch \<Rightarrow> VNet \<Rightarrow> tensor2 \<Rightarrow> tensor2" where
  "V_batch lib v S = map (\<lambda>s. [VNet_forward lib v s]) S"

definition Normal_log_prob_t :: "tensor2 \<Rightarrow> tensor2 \<Rightarrow> tensor2 \<Rightarrow> tensor2" where
  "Normal_log_prob_t loc scale v =
     map2 (\<lambda>(l_row, s_row) v_row. map2 (\<lambda>(l, s) x. Normal_log_prob l s x) (zip l_row s_row) v_row)
          (zip loc scale) v"

definition newly_sampled_actions :: "config \<Rightarrow> Actor \<Rightarrow> tensor2 \<Rightarrow> tensor2 \<Rightarrow> tensor2" where
  "newly_sampled_actions cfg \<pi> states_th z =
     (let pi_action_means = map (fst \<circ> Actor_forward cfg \<pi>) states_th;
          pi_action_logstd = map (snd \<circ> Actor_forward cfg \<pi>) states_th;
          pi_action_stds = tmap exp pi_action_logstd
      in tmap2 (+) pi_action_means (tmap2 (*) z pi_action_stds))"

definition newly_sampled_action_log_probs :: "config \<Rightarrow> Actor \<Rightarrow> tensor2 \<Rightarrow> tensor2 \<Rightarrow> tensor2" where
  "newly_sampled_action_log_probs cfg \<pi> states_th z =
     (let pi_action_means = map (fst \<circ> Actor_forward cfg \<pi>) states_th;
          pi_action_logstd = map (snd \<circ> Actor_forward cfg \<pi>) states_th;
          pi_action_stds = tmap exp pi_action_logstd
      in Normal_log_prob_t pi_action_means pi_action_stds (newly_sampled_actions cfg \<pi> states_th z))"

definition newly_sampled_Q_minvals ::
  "config \<Rightarrow> QNet \<Rightarrow> QNet \<Rightarrow> Actor \<Rightarrow> tensor2 \<Rightarrow> tensor2 \<Rightarrow> tensor2" where
  "newly_sampled_Q_minvals cfg q1 q2 \<pi> states_th z =
     (let newly_sampled_Q1_vals = Q_batch q1 states_th (newly_sampled_actions cfg \<pi> states_th z);
          newly_sampled_Q2_vals = Q_batch q2 states_th (newly_sampled_actions cfg \<pi> states_th z)
      in tmap2 min newly_sampled_Q1_vals newly_sampled_Q2_vals)"

text \<open>
  The three losses, each as a function of the parameters of its optimizer (the last
  argument). In \<open>J_v_loss\<close> the minimum of the critics and the log-probabilities are
  the detached values of the forward pass.
\<close>

definition J_v_loss :: "'o torch \<Rightarrow> config \<Rightarrow> tensor2 \<Rightarrow> tensor2 \<Rightarrow> tensor2 \<Rightarrow> VNet \<Rightarrow> real" where
  "J_v_loss lib cfg states_th Q_minvals log_probs v =
     tmean (tmap (\<lambda>x. x ^ 2)
       (tmap2 (-) (V_batch lib v states_th)
          (tmap2 (-) Q_minvals (tmap (\<lambda>x. entropy_coeff cfg * x) log_probs))))"

definition critic_target :: "config \<Rightarrow> tensor2 \<Rightarrow> tensor2 \<Rightarrow> tensor2 \<Rightarrow> tensor2" where
  "critic_target cfg rewards_th V_next_state_vals dones_th =
     tmap2 (+) rewards_th
       (tmap2 (*) (tmap (\<lambda>x. gamma cfg * x) V_next_state_vals) (tmap (\<lambda>d. 1 - d) dones_th))"

definition J_q_loss :: "tensor2 \<Rightarrow> tensor2 \<Rightarrow> tensor2 \<Rightarrow> QNet \<times> QNet \<Rightarrow> real" where
  "J_q_loss states_th actions_th y qs =
     (case qs of (q1, q2) \<Rightarrow>
        (let J_q1 = tmean (tmap (\<lambda>x. x ^ 2) (tmap2 (-) (Q_batch q1 states_th actions_th) y));
             J_q2 = tmean (tmap (\<lambda>x. x ^ 2) (tmap2 (-) (Q_batch q2 states_th actions_th) y))
         in J_q1 + J_q2))"

definition J_pi_loss :: "config \<Rightarrow> QNet \<Rightarrow> QNet \<Rightarrow> tensor2 \<Rightarrow> tensor2 \<Rightarrow> Actor \<Rightarrow> real" where
  "J_pi_loss cfg q1 q2 states_th z \<pi> =
     tmean (tmap2 (-)
       (tmap (\<lambda>x. entropy_coeff cfg * x) (newly_sampled_action_log_probs cfg \<pi> states_th z))
       (newly_sampled_Q_minvals cfg q1 q2 \<pi> states_th z))"

text \<open>
  The body of \<^verbatim>\<open>optimize_model\<close> after the batch has become tensors, in two
  parts. The first is the forward pass with the updates of the value network and of
  the critics, in this order; it gives the agent as these two steps leave it, the
  value loss and the critic loss. The argument \<open>z\<close> is the draw of the standard
  normal sampler.
\<close>

definition value_critic_updates ::
  "'o torch \<Rightarrow> config \<Rightarrow> tensor2 \<Rightarrow> 'o agent \<Rightarrow> tensor2 \<Rightarrow> tensor2 \<Rightarrow> tensor2 \<Rightarrow> tensor2 \<Rightarrow> tensor2 \<Rightarrow>
     'o agent \<times> real \<times> real" where
  "value_critic_updates lib cfg z ag states_th actions_th rewards_th next_states_th dones_th =
     (let V_next_state_vals = V_batch lib (v_target_net ag) next_states_th;
          log_probs = newly_sampled_action_log_probs cfg (policy ag) states_th z;
          Q_minvals =
            newly_sampled_Q_minvals cfg (q1_net ag) (q2_net ag) (policy ag) states_th z;
          J_v = J_v_loss lib cfg states_th Q_minvals log_probs;
          (v_opt', v') = Adam_v lib (v_net_optimizer ag) J_v (v_net ag);
          J_q = J_q_loss states_th actions_th
                  (critic_target cfg rewards_th V_next_state_vals dones_th);
          (q_opt', q1', q2') = Adam_q lib (q_net_optimizer ag) J_q (q1_net ag, q2_net ag)
      in (ag\<lparr>v_net := v', v_net_optimizer := v_opt',
               q1_net := q1', q2_net := q2', q_net_optimizer := q_opt'\<rparr>,
          J_v (v_net ag), J_q (q1_net ag, q2_net ag)))"

text \<open>
  The second part is the update of the policy. \<open>ag\<close> is the agent of the forward
  pass and \<open>ag2\<close> the agent as the first part left it. The policy loss that the
  function returns is the one of the forward pass.
\<close>

definition policy_update ::
  "'o torch \<Rightarrow> config \<Rightarrow> tensor2 \<Rightarrow> 'o agent \<Rightarrow> 'o agent \<Rightarrow> tensor2 \<Rightarrow> py_error + 'o agent \<times> real" where
  "policy_update lib cfg z ag ag2 states_th =
     (let J_pi = (\<lambda>qs \<theta>. J_pi_loss cfg (fst qs) (snd qs) states_th z (Actor_load (policy ag) \<theta>))
      in case Adam_pi lib (actor_optimizer ag2) J_pi (q1_net ag, q2_net ag)
                (q1_net ag2, q2_net ag2) (Actor_parameters (policy ag2)) of
           Inl e \<Rightarrow> Inl e
         | Inr (pi_opt', \<theta>') \<Rightarrow>
             Inr (ag2\<lparr>policy := Actor_load (policy ag2) \<theta>', actor_optimizer := pi_opt'\<rparr>,
                  J_pi (q1_net ag, q2_net ag) (Actor_parameters (policy ag))))"

definition gradient_updates ::
  "'o torch \<Rightarrow> config \<Rightarrow> tensor2 \<Rightarrow> 'o agent \<Rightarrow> tensor2 \<Rightarrow> tensor2 \<Rightarrow> tensor2 \<Rightarrow> tensor2 \<Rightarrow> tensor2 \<Rightarrow>
     py_error + 'o agent \<times> real \<times> real \<times> real" where
  "gradient_updates lib cfg z ag states_th actions_th rewards_th next_states_th dones_th =
     (case value_critic_updates lib cfg z ag states_th actions_th rewards_th next_states_th dones_th of
        (ag2, J_v, J_q) \<Rightarrow>
          (case policy_update lib cfg z ag ag2 states_th of
             Inl e \<Rightarrow> Inl e
           | Inr (ag3, J_pi) \<Rightarrow> Inr (ag3, J_v, J_q, J_pi)))"

text \<open>
  \<^verbatim>\<open>optimize_model\<close>: the guard on the size of the buffer, the sampled batch, its
  tensors, and the updates. The argument \<open>rnd\<close> holds the numbers that
  \<^verbatim>\<open>randbelow\<close> returns to \<^verbatim>\<open>random.sample\<close>.
\<close>

definition optimize_model ::
  "'o torch \<Rightarrow> config \<Rightarrow> (nat \<Rightarrow> nat) \<Rightarrow> tensor2 \<Rightarrow> 'o agent \<Rightarrow>
     (py_error + 'o agent \<times> real \<times> real \<times> real) option" where
  "optimize_model lib cfg rnd z ag =
     (if ExpReplay_len (memory ag) < train_batch_size cfg then Some (Inr (ag, 0, 0, 0))
      else
        (case sample rnd (memory ag) (train_batch_size cfg) of
           None \<Rightarrow> None
         | Some (Inl e) \<Rightarrow> Some (Inl e)
         | Some (Inr (st_b, ac_b, rew_b, nst_b, dn_b)) \<Rightarrow>
            (case (torch_tensor st_b, torch_tensor ac_b, torch_tensor nst_b) of
               (Inr states_th, Inr actions_th, Inr next_states_th) \<Rightarrow>
                 Some (gradient_updates lib cfg z ag states_th actions_th (rewards_tensor rew_b)
                         next_states_th (dones_tensor dn_b))
             | _ \<Rightarrow> Some (Inl TorchError))))"

subsection \<open>Target smoothing, training loop, evaluation\<close>

text \<open>
  The loop over \<^verbatim>\<open>zip(v_target_net.parameters(), v_net.parameters())\<close>: each paired
  target tensor is replaced by \<^verbatim>\<open>par.data*c + t_par.data*(1-c)\<close>; a target
  tensor without a partner is left as it is.
\<close>

fun smooth :: "real \<Rightarrow> VNet \<Rightarrow> VNet \<Rightarrow> VNet" where
  "smooth c (t_par # ts) (par # ps) = map2 (\<lambda>p t. p * c + t * (1 - c)) par t_par # smooth c ts ps"
| "smooth c ts [] = ts"
| "smooth c [] ps = []"

definition shape :: "VNet \<Rightarrow> nat list" where
  "shape P = map length P"

text \<open>
  \<^verbatim>\<open>v_target_net.load_state_dict(v_net.state_dict())\<close> copies every tensor of the
  source network into the target; tensors of different shapes make it raise.
\<close>

definition load_state_dict :: "VNet \<Rightarrow> VNet \<Rightarrow> py_error + VNet" where
  "load_state_dict net state_dict =
     (if shape state_dict = shape net then Inr state_dict else Inl TorchError)"

record 'e env =
  env_reset :: "'e \<Rightarrow> 'e \<times> tensor1"
  env_step :: "'e \<Rightarrow> tensor1 \<Rightarrow> 'e \<times> tensor1 \<times> real \<times> bool"
  action_space_high :: tensor1

text \<open>
  The construction at the start of the main block. The freshly initialised layers and
  optimizer states are arguments.
\<close>

definition main_init ::
  "config \<Rightarrow> 'e env \<Rightarrow> Actor_params \<Rightarrow> QNet \<Rightarrow> QNet \<Rightarrow> VNet \<Rightarrow> VNet \<Rightarrow> 'o \<Rightarrow> 'o \<Rightarrow> 'o \<Rightarrow>
     py_error + 'o agent" where
  "main_init cfg env layers q1 q2 v v_target oa oq ov =
     (case layers of (l1, l2, lm, ls) \<Rightarrow>
        (case load_state_dict v_target v of
           Inl e \<Rightarrow> Inl e
         | Inr v_target' \<Rightarrow>
             Inr \<lparr>policy = \<lparr>Actor.fc1 = l1, Actor.fc2 = l2, fc_mean = lm, fc_logstd = ls,
                             output_size = length (action_space_high env),
                             action_scale = action_space_high env\<rparr>,
                  q1_net = q1, q2_net = q2, v_net = v, v_target_net = v_target',
                  actor_optimizer = oa, q_net_optimizer = oq, v_net_optimizer = ov,
                  memory = ExpReplay_init (replay_buffer_size cfg)\<rparr>))"

text \<open>The random draws of one pass through the body of the training loop.\<close>

record noise =
  act_eps :: tensor1
  sample_rnd :: "nat \<Rightarrow> nat"
  opt_z :: tensor2

record ('o, 'e) loop =
  agent :: "'o agent"
  env_state :: 'e
  state :: tensor1
  is_done :: bool
  rew_ep :: real
  steps :: nat
  loss :: "real \<times> real \<times> real"

text \<open>The body of \<^verbatim>\<open>while not done\<close> in the main block.\<close>

definition train_step ::
  "'o torch \<Rightarrow> 'e env \<Rightarrow> config \<Rightarrow> noise \<Rightarrow> ('o, 'e) loop \<Rightarrow> (py_error + ('o, 'e) loop) option" where
  "train_step lib env cfg nz L =
     (let action = get_action cfg (policy (agent L)) (state L) (act_eps nz);
          (e', next_state, reward, d) = env_step env (env_state L) action;
          exp_tuple = (state L, action, reward_scaling cfg * reward, next_state, d)
      in case add (memory (agent L)) exp_tuple of
           Inl e \<Rightarrow> Some (Inl e)
         | Inr mem' \<Rightarrow>
            (case optimize_model lib cfg (sample_rnd nz) (opt_z nz) ((agent L)\<lparr>memory := mem'\<rparr>) of
               None \<Rightarrow> None
             | Some (Inl e) \<Rightarrow> Some (Inl e)
             | Some (Inr (ag', loss')) \<Rightarrow>
                 Some (Inr (L\<lparr>agent := ag'\<lparr>v_target_net :=
                                     smooth (target_smoothing_coeff cfg) (v_target_net ag') (v_net ag')\<rparr>,
                        env_state := e', state := next_state, is_done := d,
                        rew_ep := rew_ep L + reward, steps := steps L + 1, loss := loss'\<rparr>))))"

text \<open>
  The loop itself, with one record of draws per pass. It need not end: \<open>None\<close> is
  the result when a pass does not return, or when the draws run out before the
  environment reports the end of the episode.
\<close>

fun while_not_done ::
  "'o torch \<Rightarrow> 'e env \<Rightarrow> config \<Rightarrow> noise list \<Rightarrow> ('o, 'e) loop \<Rightarrow>
     (py_error + ('o, 'e) loop) option" where
  "while_not_done lib env cfg [] L = (if is_done L then Some (Inr L) else None)"
| "while_not_done lib env cfg (nz # nzs) L =
     (if is_done L then Some (Inr L)
      else (case train_step lib env cfg nz L of
              None \<Rightarrow> None
            | Some (Inl e) \<Rightarrow> Some (Inl e)
            | Some (Inr L') \<Rightarrow> while_not_done lib env cfg nzs L'))"

text \<open>The loop states after each completed pass of that loop.\<close>

fun loop_trace ::
  "'o torch \<Rightarrow> 'e env \<Rightarrow> config \<Rightarrow> noise list \<Rightarrow> ('o, 'e) loop \<Rightarrow> ('o, 'e) loop list" where
  "loop_trace lib env cfg [] L = []"
| "loop_trace lib env cfg (nz # nzs) L =
     (if is_done L then []
      else (case train_step lib env cfg nz L of
              Some (Inr L') \<Rightarrow> L' # loop_trace lib env cfg nzs L'
            | _ \<Rightarrow> []))"

text \<open>
  The action that each pass of the loop of \<^verbatim>\<open>evaluate_episode\<close> hands to the
  environment.
\<close>

definition evaluate_action :: "config \<Rightarrow> 'e env \<Rightarrow> Actor \<Rightarrow> tensor1 \<Rightarrow> tensor1" where
  "evaluate_action cfg env \<pi> st =
     (let (action_mean_th, action_logstd_th) = Actor_forward cfg \<pi> st
      in map2 (*) (map tanh action_mean_th) (action_space_high env))"

subsection \<open>Notions used in the statements\<close>

text \<open>A transition as its slot holds it once written.\<close>

definition stored ::
  "('s, 'a, 'r) exp_tuple \<Rightarrow> 's option \<times> 'a option \<times> 'r option \<times> 's option \<times> bool option" where
  "stored t = (case t of (s, a, r, s', d) \<Rightarrow> (Some s, Some a, Some r, Some s', Some d))"

definition same_lengths :: "('s, 'a, 'r) ExpReplay \<Rightarrow> bool" where
  "same_lengths m \<longleftrightarrow>
     length (actions m) = length (states m) \<and> length (rewards m) = length (states m)
     \<and> length (next_states m) = length (states m) \<and> length (dones m) = length (states m)"

text \<open>
  The ring invariant of a buffer of capacity \<open>C\<close> that has received the transitions
  \<open>xs\<close>, oldest first: the \<open>j\<close>-th of the last \<open>C\<close> transitions sits in slot
  \<open>j mod C\<close>.
\<close>

definition ring_inv :: "nat \<Rightarrow> ('s, 'a, 'r) exp_tuple list \<Rightarrow> ('s, 'a, 'r) ExpReplay \<Rightarrow> bool" where
  "ring_inv C xs m \<longleftrightarrow>
     max_len m = C \<and> same_lengths m \<and> pointer m = length xs mod C
     \<and> length (states m) = min (length xs) C
     \<and> (\<forall>j < length xs. length xs \<le> j + C \<longrightarrow> rows m ! (j mod C) = stored (xs ! j))
     \<and> mset (rows m) = mset (map stored (drop (length xs - C) xs))"

text \<open>The numbers that \<^verbatim>\<open>randbelow\<close> returns to a sample of size \<open>k\<close> from \<open>n\<close>.\<close>

definition draws :: "(nat \<Rightarrow> nat) \<Rightarrow> nat \<Rightarrow> nat \<Rightarrow> nat list" where
  "draws rnd n k = map (\<lambda>i. rnd i mod (n - i)) [0..<k]"

text \<open>
  The exponential moving average in closed form: the initial value \<open>t0\<close> and the
  values \<open>vs\<close>, oldest first, under the coefficient \<open>c\<close>.
\<close>

definition ema :: "real \<Rightarrow> real \<Rightarrow> real list \<Rightarrow> real" where
  "ema c t0 vs =
     (1 - c) ^ length vs * t0
       + sum_list (map (\<lambda>k. c * (1 - c) ^ (length vs - 1 - k) * vs ! k) [0..<length vs])"

text \<open>
  The slots of a population of size \<open>n\<close> that a sample of size \<open>k\<close> picks, in
  order: the sample of the list of the slots.
\<close>

definition sampled_slots :: "(nat \<Rightarrow> nat) \<Rightarrow> nat \<Rightarrow> nat \<Rightarrow> (py_error + nat list) option" where
  "sampled_slots rnd n k = random_sample rnd [0..<n] k"

text \<open>The transitions of the training loop, their components, the done flag as the number that \<^verbatim>\<open>.float()\<close> makes of it.\<close>

type_synonym transition = "(tensor1, tensor1, real) exp_tuple"

definition tr_state :: "transition \<Rightarrow> tensor1" where
  "tr_state t = (case t of (s, a, r, s', d) \<Rightarrow> s)"

definition tr_action :: "transition \<Rightarrow> tensor1" where
  "tr_action t = (case t of (s, a, r, s', d) \<Rightarrow> a)"

definition tr_reward :: "transition \<Rightarrow> real" where
  "tr_reward t = (case t of (s, a, r, s', d) \<Rightarrow> r)"

definition tr_next_state :: "transition \<Rightarrow> tensor1" where
  "tr_next_state t = (case t of (s, a, r, s', d) \<Rightarrow> s')"

definition tr_done :: "transition \<Rightarrow> real" where
  "tr_done t = (case t of (s, a, r, s', d) \<Rightarrow> if d then 1 else 0)"

text \<open>The transition in a slot of a buffer, and the batch of the transitions in given slots.\<close>

definition transition_at :: "(tensor1, tensor1, real) ExpReplay \<Rightarrow> nat \<Rightarrow> transition" where
  "transition_at m i =
     (the (states m ! i), the (actions m ! i), the (rewards m ! i),
      the (next_states m ! i), the (dones m ! i))"

definition the_batch :: "(tensor1, tensor1, real) ExpReplay \<Rightarrow> nat list \<Rightarrow> transition list" where
  "the_batch m slots = map (transition_at m) slots"

text \<open>The mean of a list of numbers.\<close>

definition mean_list :: "real list \<Rightarrow> real" where
  "mean_list xs = sum_list xs / real (length xs)"

text \<open>The last layer of a critic built by \<^verbatim>\<open>QNet.__init__\<close> has one output feature; the scalar value of a critic is that output.\<close>

definition QNet_ok :: "QNet \<Rightarrow> bool" where
  "QNet_ok q \<longleftrightarrow> length (weight (QNet.fc3 q)) = 1 \<and> length (bias (QNet.fc3 q)) = 1"

definition Q_value :: "QNet \<Rightarrow> tensor1 \<Rightarrow> tensor1 \<Rightarrow> real" where
  "Q_value q s a = QNet_forward q s a ! 0"

text \<open>The two heads of an actor built by \<^verbatim>\<open>Actor.__init__\<close> have \<^verbatim>\<open>output_size\<close> output features each.\<close>

definition action_dim :: "Actor \<Rightarrow> nat" where
  "action_dim \<pi> = length (bias (fc_mean \<pi>))"

definition Actor_ok :: "Actor \<Rightarrow> bool" where
  "Actor_ok \<pi> \<longleftrightarrow>
     length (weight (fc_mean \<pi>)) = action_dim \<pi> \<and> length (weight (fc_logstd \<pi>)) = action_dim \<pi>
     \<and> length (bias (fc_logstd \<pi>)) = action_dim \<pi>"

text \<open>The critic target and the critic loss in the words of the specification: \<open>y = r + \<gamma> (1 - done) V_target(s')\<close>, and the sum of the two mean squared errors.\<close>

definition critic_y :: "'o torch \<Rightarrow> config \<Rightarrow> VNet \<Rightarrow> transition \<Rightarrow> real" where
  "critic_y lib cfg v_target t =
     tr_reward t + gamma cfg * (1 - tr_done t) * VNet_forward lib v_target (tr_next_state t)"

definition J_Q_spec :: "'o torch \<Rightarrow> config \<Rightarrow> VNet \<Rightarrow> QNet \<Rightarrow> QNet \<Rightarrow> transition list \<Rightarrow> real" where
  "J_Q_spec lib cfg v_target q1 q2 batch =
     mean_list (map (\<lambda>t. (Q_value q1 (tr_state t) (tr_action t) - critic_y lib cfg v_target t) ^ 2) batch)
     + mean_list (map (\<lambda>t. (Q_value q2 (tr_state t) (tr_action t) - critic_y lib cfg v_target t) ^ 2) batch)"

text \<open>The reparameterised action \<open>mean + \<epsilon> exp(logstd)\<close>, the density of a Gaussian, the log-density of each component of the action under its mean and standard deviation, and the minimum of the two critics at the action.\<close>

definition sampled_action :: "config \<Rightarrow> Actor \<Rightarrow> tensor1 \<Rightarrow> tensor1 \<Rightarrow> tensor1" where
  "sampled_action cfg \<pi> s eps =
     (case Actor_forward cfg \<pi> s of
        (mean, logstd) \<Rightarrow> map2 (+) mean (map2 (*) eps (map exp logstd)))"

definition gauss_pdf :: "real \<Rightarrow> real \<Rightarrow> real \<Rightarrow> real" where
  "gauss_pdf \<mu> \<sigma> x = exp (- ((x - \<mu>) ^ 2) / (2 * \<sigma> ^ 2)) / (\<sigma> * sqrt (2 * pi))"

definition log_density :: "config \<Rightarrow> Actor \<Rightarrow> tensor1 \<Rightarrow> tensor1 \<Rightarrow> tensor1" where
  "log_density cfg \<pi> s eps =
     (case Actor_forward cfg \<pi> s of
        (mean, logstd) \<Rightarrow>
          map2 (\<lambda>(\<mu>, ls) x. ln (gauss_pdf \<mu> (exp ls) x)) (zip mean logstd) (sampled_action cfg \<pi> s eps))"

definition Q_min :: "config \<Rightarrow> QNet \<Rightarrow> QNet \<Rightarrow> Actor \<Rightarrow> tensor1 \<Rightarrow> tensor1 \<Rightarrow> real" where
  "Q_min cfg q1 q2 \<pi> s eps =
     min (Q_value q1 s (sampled_action cfg \<pi> s eps)) (Q_value q2 s (sampled_action cfg \<pi> s eps))"

text \<open>The standard normal draw has one entry per action dimension in every row.\<close>

definition noise_ok :: "Actor \<Rightarrow> tensor2 \<Rightarrow> bool" where
  "noise_ok \<pi> z \<longleftrightarrow> (\<forall>eps \<in> set z. length eps = action_dim \<pi>)"

text \<open>
  The log-probability of the action in the words of the specification: the logarithm
  of the density of the diagonal Gaussian at the action, the density being the
  product over the action dimensions.
\<close>

definition joint_density :: "config \<Rightarrow> Actor \<Rightarrow> tensor1 \<Rightarrow> tensor1 \<Rightarrow> real" where
  "joint_density cfg \<pi> s eps =
     (case Actor_forward cfg \<pi> s of
        (mean, logstd) \<Rightarrow>
          prod_list (map2 (\<lambda>(\<mu>, ls) x. gauss_pdf \<mu> (exp ls) x) (zip mean logstd)
                          (sampled_action cfg \<pi> s eps)))"

definition logprob :: "config \<Rightarrow> Actor \<Rightarrow> tensor1 \<Rightarrow> tensor1 \<Rightarrow> real" where
  "logprob cfg \<pi> s eps = ln (joint_density cfg \<pi> s eps)"

text \<open>
  The value loss and the policy loss in the words of the specification: means over
  the batch, of \<open>(V(s) - (Qmin' - \<alpha> logprob(a')))\<^sup>2\<close> and of
  \<open>\<alpha> logprob(a') - Qmin'\<close>.
\<close>

definition J_V_spec ::
  "'o torch \<Rightarrow> config \<Rightarrow> VNet \<Rightarrow> QNet \<Rightarrow> QNet \<Rightarrow> Actor \<Rightarrow> transition list \<Rightarrow> tensor2 \<Rightarrow> real" where
  "J_V_spec lib cfg v q1 q2 \<pi> batch z =
     mean_list (map2 (\<lambda>t eps.
        (VNet_forward lib v (tr_state t)
           - (Q_min cfg q1 q2 \<pi> (tr_state t) eps
                - entropy_coeff cfg * logprob cfg \<pi> (tr_state t) eps)) ^ 2) batch z)"

definition J_pi_spec :: "config \<Rightarrow> QNet \<Rightarrow> QNet \<Rightarrow> Actor \<Rightarrow> transition list \<Rightarrow> tensor2 \<Rightarrow> real" where
  "J_pi_spec cfg q1 q2 \<pi> batch z =
     mean_list (map2 (\<lambda>t eps.
        entropy_coeff cfg * logprob cfg \<pi> (tr_state t) eps
          - Q_min cfg q1 q2 \<pi> (tr_state t) eps) batch z)"

text \<open>
  The same two losses with the log-density of each component of the action in the
  place of the log-probability of the action, the mean running over the batch and
  the action dimensions.
\<close>

definition J_V_componentwise ::
  "'o torch \<Rightarrow> config \<Rightarrow> VNet \<Rightarrow> QNet \<Rightarrow> QNet \<Rightarrow> Actor \<Rightarrow> transition list \<Rightarrow> tensor2 \<Rightarrow> real" where
  "J_V_componentwise lib cfg v q1 q2 \<pi> batch z =
     mean_list (concat (map2 (\<lambda>t eps.
        map (\<lambda>lp. (VNet_forward lib v (tr_state t)
                      - (Q_min cfg q1 q2 \<pi> (tr_state t) eps - entropy_coeff cfg * lp)) ^ 2)
            (log_density cfg \<pi> (tr_state t) eps)) batch z))"

definition J_pi_componentwise :: "config \<Rightarrow> QNet \<Rightarrow> QNet \<Rightarrow> Actor \<Rightarrow> transition list \<Rightarrow> tensor2 \<Rightarrow> real" where
  "J_pi_componentwise cfg q1 q2 \<pi> batch z =
     mean_list (concat (map2 (\<lambda>t eps.
        map (\<lambda>lp. entropy_coeff cfg * lp - Q_min cfg q1 q2 \<pi> (tr_state t) eps)
            (log_density cfg \<pi> (tr_state t) eps)) batch z))"

subsection \<open>A small instance\<close>

text \<open>
  One state dimension, one action dimension, hidden width one, capacity five, batch
  size one and smoothing coefficient one half. The stand-in for the optimizer of the
  value network adds one to every parameter at each step; the other two leave their
  parameters as they are. The environment ends the episode at its third step.
\<close>

definition tiny_layer :: Linear where
  "tiny_layer = \<lparr>weight = [[0]], bias = [0]\<rparr>"

definition tiny_actor :: Actor where
  "tiny_actor = \<lparr>Actor.fc1 = tiny_layer, Actor.fc2 = tiny_layer, fc_mean = tiny_layer,
                  fc_logstd = tiny_layer, output_size = 1, action_scale = [2]\<rparr>"

definition tiny_qnet :: QNet where
  "tiny_qnet = \<lparr>QNet.fc1 = tiny_layer, QNet.fc2 = \<lparr>weight = [[0, 1]], bias = [0]\<rparr>,
                 QNet.fc3 = \<lparr>weight = [[1]], bias = [0]\<rparr>\<rparr>"

definition tiny_lib :: "nat torch" where
  "tiny_lib = \<lparr>VNet_forward = (\<lambda>v s. sum_list (concat v)),
                Adam_v = (\<lambda>st J v. (Suc st, map (map (\<lambda>p. p + 1)) v)),
                Adam_q = (\<lambda>st J qs. (Suc st, qs)),
                Adam_pi = (\<lambda>st J qs qs' \<theta>. Inr (Suc st, \<theta>))\<rparr>"

definition tiny_env :: "nat env" where
  "tiny_env = \<lparr>env_reset = (\<lambda>e. (0, [0])),
                env_step = (\<lambda>e a. (Suc e, [real (Suc e)], 1, 2 \<le> e)),
                action_space_high = [2]\<rparr>"

definition tiny_config :: config where
  "tiny_config = default_config\<lparr>replay_buffer_size := 5, train_batch_size := 1,
                                target_smoothing_coeff := 1 / 2\<rparr>"

definition tiny_noise :: noise where
  "tiny_noise = \<lparr>act_eps = [0], sample_rnd = id, opt_z = [[0]]\<rparr>"

definition tiny_agent :: "nat agent" where
  "tiny_agent = \<lparr>policy = tiny_actor, q1_net = tiny_qnet, q2_net = tiny_qnet, v_net = [[0]],
                  v_target_net = [[0]], actor_optimizer = 0, q_net_optimizer = 0,
                  v_net_optimizer = 0, memory = ExpReplay_init 5\<rparr>"

definition tiny_loop :: "(nat, nat) loop" where
  "tiny_loop = \<lparr>agent = tiny_agent, env_state = 0, state = [0], is_done = False, rew_ep = 0,
                 steps = 0, loss = (0, 0, 0)\<rparr>"

text \<open>The agent of the small instance after one insertion, and a second set of actor parameters with mean bias one.\<close>

definition tiny_transition :: transition where
  "tiny_transition = ([0], [1], 3, [1], False)"

definition tiny_memory :: "(tensor1, tensor1, real) ExpReplay" where
  "tiny_memory = \<lparr>states = [Some [0]], actions = [Some [1]], rewards = [Some 3],
                   next_states = [Some [1]], dones = [Some False], pointer = 1, max_len = 5\<rparr>"

definition tiny_agent_1 :: "nat agent" where
  "tiny_agent_1 = tiny_agent\<lparr>memory := tiny_memory\<rparr>"

definition tiny_theta :: Actor_params where
  "tiny_theta = (tiny_layer, tiny_layer, \<lparr>weight = [[0]], bias = [1]\<rparr>, tiny_layer)"


text \<open>
  A buffer of capacity thirty that has received twenty-two transitions, one more than
  the largest population that the library samples from a pool.
\<close>

definition big_transitions :: "(nat, nat, int) exp_tuple list" where
  "big_transitions = map (\<lambda>i. (i, 10 * i, int i, Suc i, False)) [0..<22]"

definition big_memory :: "(nat, nat, int) ExpReplay" where
  "big_memory =
     \<lparr>states = map Some [0..<22], actions = map (\<lambda>i. Some (10 * i)) [0..<22],
      rewards = map (\<lambda>i. Some (int i)) [0..<22], next_states = map (\<lambda>i. Some (Suc i)) [0..<22],
      dones = replicate 22 (Some False), pointer = 22, max_len = 30\<rparr>"
section \<open>The replay buffer is a ring\<close>

lemma length_rows: "same_lengths m \<Longrightarrow> length (rows m) = length (states m)"
  by (simp add: rows_def same_lengths_def)

lemma ring_inv_init: "ring_inv C [] (ExpReplay_init C)"
  by (simp add: ring_inv_def ExpReplay_init_def same_lengths_def rows_def)

lemma snoc_update_last: "length xs = n \<Longrightarrow> (xs @ [y])[n := z] = xs @ [z]"
  by auto

lemma add_rows_grow:
  assumes "same_lengths m" "length (states m) < max_len m" "pointer m = length (states m)"
  shows "\<exists>m'. add m t = Inr m' \<and> same_lengths m' \<and> max_len m' = max_len m
           \<and> pointer m' = (pointer m + 1) mod max_len m
           \<and> length (states m') = Suc (length (states m))
           \<and> rows m' = rows m @ [stored t]"
  using assms
  by (cases t) (simp add: add_def same_lengths_def rows_def stored_def Let_def snoc_update_last)

lemma add_rows_full:
  assumes "same_lengths m" "\<not> length (states m) < max_len m" "pointer m < length (states m)"
    "0 < max_len m"
  shows "\<exists>m'. add m t = Inr m' \<and> same_lengths m' \<and> max_len m' = max_len m
           \<and> pointer m' = (pointer m + 1) mod max_len m
           \<and> length (states m') = length (states m)
           \<and> rows m' = (rows m)[pointer m := stored t]"
  using assms
  by (cases t) (auto simp add: add_def same_lengths_def rows_def stored_def Let_def zip_update)


lemma mod_neq_between:
  fixes j n C :: nat
  assumes "j < n" "n < j + C"
  shows "j mod C \<noteq> n mod C"
proof
  assume e: "j mod C = n mod C"
  have "(n - j) mod C = 0"
    using e assms(1) by (metis mod_eq_dvd_iff_nat less_imp_le_nat dvd_imp_mod_0)
  moreover have "0 < n - j" "n - j < C" using assms by auto
  ultimately show False by simp
qed

lemma ring_inv_add:
  assumes inv: "ring_inv C xs m" and C: "0 < C"
  shows "\<exists>m'. add m t = Inr m' \<and> ring_inv C (xs @ [t]) m'"
proof (cases "length xs < C")
  case True
  have len: "length (states m) = length xs" and ptr: "pointer m = length xs"
    and sl: "same_lengths m" and ml: "max_len m = C"
    using inv True by (auto simp: ring_inv_def)
  from add_rows_grow[of m t] len ptr sl ml True
  obtain m' where m': "add m t = Inr m'" "same_lengths m'" "max_len m' = C"
      "pointer m' = (length xs + 1) mod C" "length (states m') = Suc (length xs)"
      "rows m' = rows m @ [stored t]"
    by auto
  have lr: "length (rows m) = length xs" using length_rows[OF sl] len by simp
  have old: "\<And>j. j < length xs \<Longrightarrow> rows m ! j = stored (xs ! j)"
    using inv True by (auto simp: ring_inv_def)
  have nth: "\<forall>j < length (xs @ [t]). length (xs @ [t]) \<le> j + C
               \<longrightarrow> rows m' ! (j mod C) = stored ((xs @ [t]) ! j)"
    using True old lr m'(6) by (auto simp: nth_append less_Suc_eq)
  have ms: "mset (rows m') = mset (map stored (drop (length (xs @ [t]) - C) (xs @ [t])))"
    using inv True m'(6) by (auto simp: ring_inv_def)
  show ?thesis
    using m' nth ms True by (auto simp: ring_inv_def)
next
  case False
  then have ge: "C \<le> length xs" by simp
  have len: "length (states m) = C" and ptr: "pointer m = length xs mod C"
    and sl: "same_lengths m" and ml: "max_len m = C"
    using inv ge by (auto simp: ring_inv_def)
  have "pointer m < length (states m)" using ptr len C by simp
  from add_rows_full[of m t] this len sl ml C
  obtain m' where m': "add m t = Inr m'" "same_lengths m'" "max_len m' = C"
      "pointer m' = (pointer m + 1) mod C" "length (states m') = C"
      "rows m' = (rows m)[pointer m := stored t]"
    by auto
  have lr: "length (rows m) = C" using length_rows[OF sl] len by simp
  have old: "\<And>j. j < length xs \<Longrightarrow> length xs \<le> j + C \<Longrightarrow> rows m ! (j mod C) = stored (xs ! j)"
    using inv by (auto simp: ring_inv_def)
  have p': "pointer m' = (length xs + 1) mod C"
    using m'(4) ptr by (simp add: mod_Suc_eq)
  have nth: "\<forall>j < length (xs @ [t]). length (xs @ [t]) \<le> j + C
               \<longrightarrow> rows m' ! (j mod C) = stored ((xs @ [t]) ! j)"
  proof (intro allI impI)
    fix j assume j: "j < length (xs @ [t])" "length (xs @ [t]) \<le> j + C"
    show "rows m' ! (j mod C) = stored ((xs @ [t]) ! j)"
    proof (cases "j = length xs")
      case True
      then show ?thesis using m'(6) ptr lr C by simp
    next
      case False
      then have jl: "j < length xs" using j by simp
      have "length xs < j + C" using j by simp
      then have "j mod C \<noteq> length xs mod C" using mod_neq_between[OF jl] by simp
      then have "rows m' ! (j mod C) = rows m ! (j mod C)"
        using m'(6) ptr by simp
      also have "\<dots> = stored (xs ! j)" using old[OF jl] j by simp
      finally show ?thesis using jl by (simp add: nth_append)
    qed
  qed
  have oldest: "rows m ! (pointer m) = stored (xs ! (length xs - C))"
  proof -
    have "(length xs - C) mod C = length xs mod C"
      using ge by (simp add: le_mod_geq)
    moreover have "length xs - C < length xs" using ge C by simp
    ultimately show ?thesis using old[of "length xs - C"] ge ptr by simp
  qed
  have dr: "drop (length xs - C) xs = xs ! (length xs - C) # drop (Suc (length xs - C)) xs"
    using ge C by (simp add: Cons_nth_drop_Suc)
  have "mset (rows m) = mset (map stored (drop (length xs - C) xs))"
    using inv by (simp add: ring_inv_def)
  then have "mset (rows m') = add_mset (stored t) (mset (map stored (drop (Suc (length xs - C)) xs)))"
    using m'(6) oldest dr lr ptr C by (simp add: mset_update)
  then have ms: "mset (rows m') = mset (map stored (drop (length (xs @ [t]) - C) (xs @ [t])))"
    using ge C by (simp add: Suc_diff_le)
  show ?thesis
    using m' nth ms ge p' by (auto simp: ring_inv_def)
qed

lemma ring_inv_add_all:
  assumes "ring_inv C xs m" "0 < C"
  shows "\<exists>m'. add_all m ts = Inr m' \<and> ring_inv C (xs @ ts) m'"
  using assms
proof (induction ts arbitrary: xs m)
  case Nil
  then show ?case by simp
next
  case (Cons t ts)
  from ring_inv_add[OF Cons.prems] obtain m1 where m1: "add m t = Inr m1" "ring_inv C (xs @ [t]) m1"
    by blast
  from Cons.IH[OF m1(2) Cons.prems(2)] m1(1) show ?case by simp
qed

lemma ring_inv_oldest:
  assumes inv: "ring_inv C xs m" and C: "0 < C" and ge: "C \<le> length xs"
  shows "rows m ! pointer m = stored (xs ! (length xs - C))"
proof -
  have "(length xs - C) mod C = length xs mod C"
    using ge by (simp add: le_mod_geq)
  moreover have "length xs - C < length xs" using ge C by simp
  ultimately show ?thesis using inv ge by (auto simp: ring_inv_def)
qed

lemma ring_inv_overwrite:
  assumes inv: "ring_inv C xs m" and C: "0 < C" and ge: "C \<le> length xs"
  shows "\<exists>m'. add m t = Inr m' \<and> ExpReplay_len m' = C \<and> rows m' = (rows m)[pointer m := stored t]"
proof -
  have len: "length (states m) = C" and ptr: "pointer m = length xs mod C"
    and sl: "same_lengths m" and ml: "max_len m = C"
    using inv ge by (auto simp: ring_inv_def)
  have "pointer m < length (states m)" using ptr len C by simp
  from add_rows_full[of m t] this len sl ml C show ?thesis
    by (auto simp: ExpReplay_len_def)
qed

lemma rewards_rows: "same_lengths m \<Longrightarrow> rewards m = map (fst \<circ> snd \<circ> snd) (rows m)"
  by (simp add: rows_def same_lengths_def map_fst_zip map_snd_zip zip_map_fst_snd flip: map_map)

lemma stored_reward: "(fst \<circ> snd \<circ> snd) (stored t) = (case t of (s, a, r, s', d) \<Rightarrow> Some r)"
  by (simp add: stored_def split: prod.splits)

lemma add_all_snoc:
  "add_all m (xs @ [x]) = (case add_all m xs of Inl e \<Rightarrow> Inl e | Inr m' \<Rightarrow> add m' x)"
  by (induction xs arbitrary: m) (auto split: sum.splits)

lemma add_all_below_capacity:
  "length xs \<le> C \<Longrightarrow>
     add_all (ExpReplay_init C) xs
       = Inr \<lparr>states = map (\<lambda>t. Some (fst t)) xs,
              actions = map (\<lambda>t. Some (fst (snd t))) xs,
              rewards = map (\<lambda>t. Some (fst (snd (snd t)))) xs,
              next_states = map (\<lambda>t. Some (fst (snd (snd (snd t))))) xs,
              dones = map (\<lambda>t. Some (snd (snd (snd (snd t))))) xs,
              pointer = length xs mod C, max_len = C\<rparr>"
proof (induction xs rule: rev_induct)
  case Nil
  then show ?case by (simp add: ExpReplay_init_def)
next
  case (snoc x xs)
  then have l: "length xs < C" by simp
  then have ih: "add_all (ExpReplay_init C) xs
       = Inr \<lparr>states = map (\<lambda>t. Some (fst t)) xs,
              actions = map (\<lambda>t. Some (fst (snd t))) xs,
              rewards = map (\<lambda>t. Some (fst (snd (snd t)))) xs,
              next_states = map (\<lambda>t. Some (fst (snd (snd (snd t))))) xs,
              dones = map (\<lambda>t. Some (snd (snd (snd (snd t))))) xs,
              pointer = length xs mod C, max_len = C\<rparr>"
    using snoc.IH by simp
  obtain s a r s' d where x: "x = (s, a, r, s', d)" by (cases x)
  show ?case
    using l by (simp add: add_all_snoc ih add_def Let_def x snoc_update_last)
qed

section \<open>Sampling without replacement\<close>

lemma length_pool_loop: "length (pool_loop rnd n pool i r) = r"
  by (induction r arbitrary: pool i) (simp_all add: Let_def)

lemma pool_loop_map:
  "n \<le> length pool \<Longrightarrow> i + r \<le> n \<Longrightarrow>
     pool_loop rnd n (map f pool) i r = map f (pool_loop rnd n pool i r)"
proof (induction r arbitrary: pool i)
  case 0
  then show ?case by simp
next
  case (Suc r)
  have j: "rnd i mod (n - i) < length pool" "n - i - 1 < length pool"
    using Suc.prems by (auto intro: less_le_trans[OF mod_less_divisor])
  have "pool_loop rnd n (map f (pool[rnd i mod (n - i) := pool ! (n - i - 1)])) (Suc i) r
        = map f (pool_loop rnd n (pool[rnd i mod (n - i) := pool ! (n - i - 1)]) (Suc i) r)"
    using Suc.prems by (intro Suc.IH) auto
  then show ?case using j by (simp add: Let_def map_update)
qed

lemma vacancy_fill:
  assumes "distinct (take (Suc q) pool)" "Suc q \<le> length pool" "j \<le> q"
  shows "distinct (take q (pool[j := pool ! q]))
         \<and> set (take q (pool[j := pool ! q])) = set (take (Suc q) pool) - {pool ! j}"
proof (cases "j = q")
  case True
  then have "take q (pool[j := pool ! q]) = take q pool" by simp
  moreover have "take (Suc q) pool = take q pool @ [pool ! q]"
    using assms(2) by (simp add: take_Suc_conv_app_nth)
  ultimately show ?thesis using assms(1) True by auto
next
  case False
  then have jq: "j < q" using assms(3) by simp
  have t: "take (Suc q) pool = take q pool @ [pool ! q]"
    using assms(2) by (simp add: take_Suc_conv_app_nth)
  have d: "distinct (take q pool)" "pool ! q \<notin> set (take q pool)"
    using assms(1) t by auto
  have u: "take q (pool[j := pool ! q]) = (take q pool)[j := pool ! q]"
    by (simp add: take_update_swap)
  have lj: "j < length (take q pool)" using jq assms(2) by simp
  have nj: "take q pool ! j = pool ! j" using jq by simp
  have "distinct ((take q pool)[j := pool ! q])"
    using d lj by (simp add: distinct_list_update)
  moreover have "set ((take q pool)[j := pool ! q]) = insert (pool ! q) (set (take q pool) - {pool ! j})"
    using d(1) lj nj by (metis set_update_distinct)
  ultimately show ?thesis using t d u lj nj
    by (auto simp: in_set_conv_nth)
qed


lemma pool_loop_distinct:
  assumes "n \<le> length pool" "i + r \<le> n" "distinct (take (n - i) pool)"
  shows "distinct (pool_loop rnd n pool i r)
         \<and> set (pool_loop rnd n pool i r) \<subseteq> set (take (n - i) pool)"
  using assms
proof (induction r arbitrary: pool i)
  case 0
  then show ?case by simp
next
  case (Suc r)
  define q where "q = n - i - 1"
  define j where "j = rnd i mod (n - i)"
  have ni: "n - i = Suc q" using Suc.prems(2) by (simp add: q_def)
  have jq: "j \<le> q" unfolding j_def ni by (metis less_Suc_eq_le mod_less_divisor zero_less_Suc)
  have ql: "Suc q \<le> length pool" using Suc.prems(1) ni by linarith
  from vacancy_fill[of q pool j] Suc.prems(3) ni ql jq
  have vf: "distinct (take q (pool[j := pool ! q]))"
    "set (take q (pool[j := pool ! q])) = set (take (Suc q) pool) - {pool ! j}"
    by auto
  have nq: "n - Suc i = q" by (simp add: q_def)
  have ih: "distinct (pool_loop rnd n (pool[j := pool ! q]) (Suc i) r)
         \<and> set (pool_loop rnd n (pool[j := pool ! q]) (Suc i) r) \<subseteq> set (take (n - Suc i) (pool[j := pool ! q]))"
    using Suc.prems vf nq by (intro Suc.IH) auto
  have pj: "pool ! j \<in> set (take (Suc q) pool)"
    using jq ql by (auto simp: in_set_conv_nth intro!: exI[of _ j])
  have unf: "pool_loop rnd n pool i (Suc r) = pool ! j # pool_loop rnd n (pool[j := pool ! q]) (Suc i) r"
    by (simp add: Let_def j_def q_def)
  show ?case
    unfolding unf ni using ih vf pj nq by auto
qed

lemma pool_loop_cong:
  "\<forall>t\<ge>i. rnd t = rnd' t \<Longrightarrow> pool_loop rnd n pool i r = pool_loop rnd' n pool i r"
proof (induction r arbitrary: pool i)
  case 0
  then show ?case by simp
next
  case (Suc r)
  have hd: "rnd i = rnd' i" using Suc.prems by simp
  have "\<forall>t\<ge>Suc i. rnd t = rnd' t" using Suc.prems by simp
  note ih = Suc.IH[OF this]
  show ?case using hd ih by (simp add: Let_def)
qed

lemma pool_loop_onto:
  assumes "n \<le> length pool" "i + r \<le> n" "distinct (take (n - i) pool)"
    "distinct ys" "length ys = r" "set ys \<subseteq> set (take (n - i) pool)"
  shows "\<exists>rnd. pool_loop rnd n pool i r = ys"
  using assms
proof (induction r arbitrary: pool i ys)
  case 0
  then show ?case by simp
next
  case (Suc r)
  then obtain x rest where ys: "ys = x # rest" by (cases ys) auto
  define q where "q = n - i - 1"
  have ni: "n - i = Suc q" using Suc.prems(2) by (simp add: q_def)
  have nq: "n - Suc i = q" by (simp add: q_def)
  have ql: "Suc q \<le> length pool" using Suc.prems(1) ni by linarith
  have "x \<in> set (take (Suc q) pool)" using Suc.prems(6) ys ni by simp
  then obtain j where j: "j < Suc q" "pool ! j = x"
    using ql by (auto simp: in_set_conv_nth)
  from vacancy_fill[of q pool j] Suc.prems(3) ni ql j
  have vf: "distinct (take q (pool[j := pool ! q]))"
    "set (take q (pool[j := pool ! q])) = set (take (Suc q) pool) - {x}"
    by auto
  have "\<exists>rnd. pool_loop rnd n (pool[j := pool ! q]) (Suc i) r = rest"
    using Suc.prems ys vf ni nq by (intro Suc.IH) auto
  then obtain rnd0 where r0: "pool_loop rnd0 n (pool[j := pool ! q]) (Suc i) r = rest" ..
  have "pool_loop (rnd0(i := j)) n (pool[j := pool ! q]) (Suc i) r
        = pool_loop rnd0 n (pool[j := pool ! q]) (Suc i) r"
    by (intro pool_loop_cong) simp
  then have "pool_loop (rnd0(i := j)) n pool i (Suc r) = ys"
    using r0 j ys by (simp add: Let_def ni)
  then show ?case by blast
qed

lemma pool_loop_inj:
  assumes "n \<le> length pool" "i + r \<le> n" "distinct (take (n - i) pool)"
    "pool_loop rnd n pool i r = pool_loop rnd' n pool i r"
  shows "\<forall>t < r. rnd (i + t) mod (n - (i + t)) = rnd' (i + t) mod (n - (i + t))"
  using assms
proof (induction r arbitrary: pool i)
  case 0
  then show ?case by simp
next
  case (Suc r)
  define q where "q = n - i - 1"
  define j where "j = rnd i mod (n - i)"
  define j' where "j' = rnd' i mod (n - i)"
  have ni: "n - i = Suc q" using Suc.prems(2) by (simp add: q_def)
  have nq: "n - Suc i = q" by (simp add: q_def)
  have ql: "Suc q \<le> length pool" using Suc.prems(1) ni by linarith
  have jq: "j < Suc q" "j' < Suc q" unfolding j_def j'_def ni by simp_all
  have hd_eq: "pool ! j = pool ! j'"
    and tl_eq: "pool_loop rnd n (pool[j := pool ! q]) (Suc i) r
                = pool_loop rnd' n (pool[j' := pool ! q]) (Suc i) r"
    using Suc.prems(4) by (simp_all add: Let_def j_def j'_def ni)
  have "take (Suc q) pool ! j = take (Suc q) pool ! j'" using hd_eq jq by simp
  moreover have "length (take (Suc q) pool) = Suc q" using ql by simp
  moreover have "distinct (take (Suc q) pool)" using Suc.prems(3) ni by simp
  ultimately have jj: "j = j'"
    using jq by (metis nth_eq_iff_index_eq)
  from vacancy_fill[of q pool j] Suc.prems(3) ni ql jq
  have vf: "distinct (take q (pool[j := pool ! q]))" by auto
  have ih: "\<forall>t < r. rnd (Suc i + t) mod (n - (Suc i + t)) = rnd' (Suc i + t) mod (n - (Suc i + t))"
    using Suc.prems(1,2) vf nq tl_eq jj by (intro Suc.IH) auto
  show ?case
  proof (intro allI impI)
    fix t assume t: "t < Suc r"
    show "rnd (i + t) mod (n - (i + t)) = rnd' (i + t) mod (n - (i + t))"
    proof (cases t)
      case 0
      then show ?thesis using jj by (simp add: j_def j'_def)
    next
      case (Suc t')
      then show ?thesis using ih t by simp
    qed
  qed
qed

lemma pool_loop_uniform:
  assumes "k \<le> n" "distinct ys" "length ys = k" "set ys \<subseteq> {..<n}"
  shows "\<exists>rnd. pool_loop rnd n [0..<n] 0 k = ys
           \<and> (\<forall>rnd'. pool_loop rnd' n [0..<n] 0 k = ys \<longrightarrow> draws rnd' n k = draws rnd n k)"
proof -
  have "\<exists>rnd. pool_loop rnd n [0..<n] 0 k = ys"
    using assms by (intro pool_loop_onto) auto
  then obtain rnd where rnd: "pool_loop rnd n [0..<n] 0 k = ys" ..
  have "draws rnd' n k = draws rnd n k" if "pool_loop rnd' n [0..<n] 0 k = ys" for rnd'
  proof -
    have "\<forall>t < k. rnd' (0 + t) mod (n - (0 + t)) = rnd (0 + t) mod (n - (0 + t))"
      using assms(1) that rnd by (intro pool_loop_inj[where pool = "[0..<n]"]) auto
    then show ?thesis by (simp add: draws_def)
  qed
  then show ?thesis using rnd by blast
qed

lemma reselect_hit:
  "rnd c mod n \<notin> selected \<Longrightarrow> reselect rnd n selected c = Some (rnd c mod n, Suc c)"
  by (subst reselect.simps) simp

lemma reselect_miss:
  "rnd c mod n \<in> selected \<Longrightarrow> reselect rnd n selected c = reselect rnd n selected (Suc c)"
  by (subst reselect.simps) simp

lemma reselect_first:
  "\<forall>i<d. rnd (c + i) mod n \<in> selected \<Longrightarrow> rnd (c + d) mod n \<notin> selected \<Longrightarrow>
     reselect rnd n selected c = Some (rnd (c + d) mod n, Suc (c + d))"
proof (induction d arbitrary: c)
  case 0
  then show ?case by (simp add: reselect_hit)
next
  case (Suc d)
  have m: "rnd c mod n \<in> selected" using Suc.prems(1)[rule_format, of 0] by simp
  have "\<forall>i<d. rnd (Suc c + i) mod n \<in> selected"
    using Suc.prems(1) by (metis Suc_less_eq add_Suc_shift)
  moreover have "rnd (Suc c + d) mod n \<notin> selected" using Suc.prems(2) by simp
  ultimately have "reselect rnd n selected (Suc c) = Some (rnd (Suc c + d) mod n, Suc (Suc c + d))"
    by (rule Suc.IH)
  then show ?case using m by (simp add: reselect_miss)
qed

lemma reselect_Some:
  assumes "reselect rnd n selected c = Some (j, c')"
  shows "\<exists>d. c' = Suc (c + d) \<and> j = rnd (c + d) mod n \<and> j \<notin> selected
             \<and> (\<forall>i<d. rnd (c + i) mod n \<in> selected)"
proof -
  have "\<exists>d. snd y = Suc (c + d) \<and> fst y = rnd (c + d) mod n \<and> fst y \<notin> selected
             \<and> (\<forall>i<d. rnd (c + i) mod n \<in> selected)"
    if "reselect rnd n selected c = Some y" for y
  proof (rule reselect.raw_induct[where P = "\<lambda>rnd n selected c y.
      \<exists>d. snd y = Suc (c + d) \<and> fst y = rnd (c + d) mod n \<and> fst y \<notin> selected
             \<and> (\<forall>i<d. rnd (c + i) mod n \<in> selected)", OF _ that])
    fix f :: "(nat \<Rightarrow> nat) \<Rightarrow> nat \<Rightarrow> nat set \<Rightarrow> nat \<Rightarrow> (nat \<times> nat) option"
      and rnd n selected c y
    assume ih: "\<And>rnd n selected c y. f rnd n selected c = Some y \<Longrightarrow>
        \<exists>d. snd y = Suc (c + d) \<and> fst y = rnd (c + d) mod n \<and> fst y \<notin> selected
             \<and> (\<forall>i<d. rnd (c + i) mod n \<in> selected)"
      and eq: "(if rnd c mod n \<in> selected then f rnd n selected (Suc c)
                else Some (rnd c mod n, Suc c)) = Some y"
    show "\<exists>d. snd y = Suc (c + d) \<and> fst y = rnd (c + d) mod n \<and> fst y \<notin> selected
             \<and> (\<forall>i<d. rnd (c + i) mod n \<in> selected)"
    proof (cases "rnd c mod n \<in> selected")
      case True
      then have "f rnd n selected (Suc c) = Some y" using eq by simp
      from ih[OF this] obtain d where d: "snd y = Suc (Suc c + d)" "fst y = rnd (Suc c + d) mod n"
        "fst y \<notin> selected" "\<forall>i<d. rnd (Suc c + i) mod n \<in> selected" by blast
      have "\<forall>i<Suc d. rnd (c + i) mod n \<in> selected"
      proof (intro allI impI)
        fix i assume "i < Suc d"
        then show "rnd (c + i) mod n \<in> selected"
          using True d(4) by (cases i) auto
      qed
      then show ?thesis using d by (intro exI[of _ "Suc d"]) simp
    next
      case False
      then show ?thesis using eq by (intro exI[of _ 0]) auto
    qed
  qed
  from this[OF assms] show ?thesis by simp
qed

lemma reselect_None:
  "reselect rnd n selected c = None \<longleftrightarrow> (\<forall>d. rnd (c + d) mod n \<in> selected)"
proof
  assume n: "reselect rnd n selected c = None"
  show "\<forall>d. rnd (c + d) mod n \<in> selected"
  proof (rule ccontr)
    assume "\<not> (\<forall>d. rnd (c + d) mod n \<in> selected)"
    then obtain d where "rnd (c + d) mod n \<notin> selected" by blast
    then obtain d0 where "rnd (c + d0) mod n \<notin> selected" "\<forall>i<d0. rnd (c + i) mod n \<in> selected"
      using exists_least_iff[of "\<lambda>d. rnd (c + d) mod n \<notin> selected"] by blast
    from reselect_first[OF this(2,1)] n show False by simp
  qed
next
  assume a: "\<forall>d. rnd (c + d) mod n \<in> selected"
  show "reselect rnd n selected c = None"
  proof (cases "reselect rnd n selected c")
    case None then show ?thesis .
  next
    case (Some p)
    obtain j c' where "p = (j, c')" by (cases p)
    from reselect_Some[OF Some[unfolded this]] a show ?thesis by blast
  qed
qed

lemma reselect_below:
  assumes "reselect rnd n selected c = Some (j, c')" "0 < n"
  shows "j < n \<and> j \<notin> selected"
  using reselect_Some[OF assms(1)] assms(2) by auto

lemma set_loop_map:
  assumes "0 < length population"
  shows "set_loop rnd population selected c r
         = map_option (map ((!) population)) (set_loop rnd [0..<length population] selected c r)"
proof (induction r arbitrary: selected c)
  case 0
  then show ?case by simp
next
  case (Suc r)
  show ?case
  proof (cases "reselect rnd (length population) selected c")
    case None
    then show ?thesis by simp
  next
    case (Some p)
    obtain j c' where p: "p = (j, c')" by (cases p)
    have j: "j < length population" using reselect_below[OF Some[unfolded p] assms] by simp
    show ?thesis
      using Some p j Suc.IH[of "insert j selected" c']
      by (simp split: option.splits)
  qed
qed

lemma set_loop_slots:
  assumes "set_loop rnd [0..<n] selected c r = Some js" "0 < n"
  shows "length js = r \<and> distinct js \<and> set js \<subseteq> {..<n} \<and> set js \<inter> selected = {}"
  using assms(1)
proof (induction r arbitrary: selected c js)
  case 0
  then show ?case by simp
next
  case (Suc r)
  from Suc.prems obtain j c' rest where
    rs: "reselect rnd n selected c = Some (j, c')"
    and sl: "set_loop rnd [0..<n] (insert j selected) c' r = Some rest"
    and js: "js = [0..<n] ! j # rest"
    by (auto split: option.splits)
  have j: "j < n" "j \<notin> selected" using reselect_below[OF rs assms(2)] by simp_all
  from Suc.IH[OF sl] have ih: "length rest = r" "distinct rest" "set rest \<subseteq> {..<n}"
    "set rest \<inter> insert j selected = {}" by simp_all
  show ?case using j ih js by auto
qed

lemma set_loop_returns:
  assumes "\<forall>c. \<forall>j<n. \<exists>d. rnd (c + d) mod n = j" "card (selected \<inter> {..<n}) + r \<le> n"
  shows "\<exists>js. set_loop rnd [0..<n] selected c r = Some js"
  using assms(2)
proof (induction r arbitrary: selected c)
  case 0
  then show ?case by simp
next
  case (Suc r)
  have lt: "card (selected \<inter> {..<n}) < card {..<n}" using Suc.prems by simp
  have "\<exists>j<n. j \<notin> selected"
  proof (rule ccontr)
    assume "\<not> (\<exists>j<n. j \<notin> selected)"
    then have "selected \<inter> {..<n} = {..<n}" by auto
    then show False using lt by simp
  qed
  then obtain j0 where j0: "j0 < n" "j0 \<notin> selected" by blast
  then have n: "0 < n" by simp
  from assms(1) j0(1) obtain d where "rnd (c + d) mod n = j0" by blast
  then have "\<not> (\<forall>d. rnd (c + d) mod n \<in> selected)" using j0(2) by blast
  then have "reselect rnd n selected c \<noteq> None" by (simp add: reselect_None)
  then obtain j c' where rs: "reselect rnd n selected c = Some (j, c')" by auto
  have j: "j < n" "j \<notin> selected" using reselect_below[OF rs n] by simp_all
  have "insert j selected \<inter> {..<n} = insert j (selected \<inter> {..<n})" using j(1) by auto
  then have "card (insert j selected \<inter> {..<n}) = Suc (card (selected \<inter> {..<n}))"
    using j(2) by simp
  then have "card (insert j selected \<inter> {..<n}) + r \<le> n" using Suc.prems by simp
  from Suc.IH[OF this, of c'] obtain rest where
    "set_loop rnd [0..<n] (insert j selected) c' r = Some rest" by blast
  then show ?case using rs by simp
qed

lemma reselect_relabel:
  assumes "bij_betw \<sigma> {..<n} {..<n}" "selected \<subseteq> {..<n}" "0 < n"
  shows "reselect (\<lambda>c. \<sigma> (rnd c mod n)) n (\<sigma> ` selected) c
         = map_option (\<lambda>p. (\<sigma> (fst p), snd p)) (reselect rnd n selected c)"
proof -
  have inj: "inj_on \<sigma> {..<n}" and img: "\<sigma> ` {..<n} = {..<n}"
    using assms(1) by (simp_all add: bij_betw_def)
  have lt: "\<sigma> x < n" if "x < n" for x using img that by blast
  have md: "\<sigma> (rnd i mod n) mod n = \<sigma> (rnd i mod n)" for i
    using lt[of "rnd i mod n"] assms(3) by simp
  have fr: "\<sigma> (rnd i mod n) \<in> \<sigma> ` selected \<longleftrightarrow> rnd i mod n \<in> selected" for i
  proof
    assume "\<sigma> (rnd i mod n) \<in> \<sigma> ` selected"
    then obtain x where x: "x \<in> selected" "\<sigma> (rnd i mod n) = \<sigma> x" by blast
    have "rnd i mod n \<in> {..<n}" "x \<in> {..<n}" using assms(2,3) x(1) by auto
    then have "rnd i mod n = x" using inj x(2) by (simp add: inj_on_def)
    then show "rnd i mod n \<in> selected" using x(1) by simp
  qed simp
  show ?thesis
  proof (cases "reselect rnd n selected c")
    case None
    then have "\<forall>d. rnd (c + d) mod n \<in> selected" by (simp add: reselect_None)
    then have "reselect (\<lambda>c. \<sigma> (rnd c mod n)) n (\<sigma> ` selected) c = None"
      by (simp add: reselect_None md fr)
    then show ?thesis using None by simp
  next
    case (Some p)
    obtain j c' where p: "p = (j, c')" by (cases p)
    from reselect_Some[OF Some[unfolded p]] obtain d where
      d: "c' = Suc (c + d)" "j = rnd (c + d) mod n" "j \<notin> selected"
        "\<forall>i<d. rnd (c + i) mod n \<in> selected" by blast
    have a: "\<forall>i<d. (\<lambda>c. \<sigma> (rnd c mod n)) (c + i) mod n \<in> \<sigma> ` selected"
      using d(4) by (simp add: md)
    have b: "(\<lambda>c. \<sigma> (rnd c mod n)) (c + d) mod n \<notin> \<sigma> ` selected"
      using d(2,3) fr[of "c + d"] by (simp add: md)
    from reselect_first[OF a b]
    have "reselect (\<lambda>c. \<sigma> (rnd c mod n)) n (\<sigma> ` selected) c = Some (\<sigma> j, c')"
      using d(1,2) by (simp add: md)
    then show ?thesis using Some p by simp
  qed
qed

lemma set_loop_relabel:
  assumes "bij_betw \<sigma> {..<n} {..<n}" "selected \<subseteq> {..<n}" "0 < n"
  shows "set_loop (\<lambda>c. \<sigma> (rnd c mod n)) [0..<n] (\<sigma> ` selected) c r
         = map_option (map \<sigma>) (set_loop rnd [0..<n] selected c r)"
  using assms(2)
proof (induction r arbitrary: selected c)
  case 0
  then show ?case by simp
next
  case (Suc r)
  have img: "\<sigma> ` {..<n} = {..<n}" using assms(1) by (simp add: bij_betw_def)
  note rr = reselect_relabel[OF assms(1) Suc.prems assms(3), of rnd c]
  show ?case
  proof (cases "reselect rnd n selected c")
    case None
    then show ?thesis using rr by simp
  next
    case (Some p)
    obtain j c' where p: "p = (j, c')" by (cases p)
    have j: "j < n" using reselect_below[OF Some[unfolded p] assms(3)] by simp
    then have sj: "\<sigma> j < n" using img by blast
    have sub: "insert j selected \<subseteq> {..<n}" using j Suc.prems by simp
    have ih: "set_loop (\<lambda>c. \<sigma> (rnd c mod n)) [0..<n] (insert (\<sigma> j) (\<sigma> ` selected)) c' r
              = map_option (map \<sigma>) (set_loop rnd [0..<n] (insert j selected) c' r)"
      using Suc.IH[OF sub, of c'] by simp
    show ?thesis
      using rr Some p j sj ih by (simp split: option.splits)
  qed
qed

lemma setsize_ge: "21 \<le> setsize k"
  by (simp add: setsize_def)

lemma random_sample_slots:
  "random_sample rnd population k
     = map_option (map_sum id (map ((!) population))) (sampled_slots rnd (length population) k)"
proof -
  let ?n = "length population"
  consider "?n < k" | "k \<le> ?n" "?n \<le> setsize k" | "k \<le> ?n" "setsize k < ?n" by linarith
  then show ?thesis
  proof cases
    case 1
    then show ?thesis by (simp add: random_sample_def sampled_slots_def)
  next
    case 2
    have "pool_loop rnd ?n (map ((!) population) [0..<?n]) 0 k
            = map ((!) population) (pool_loop rnd ?n [0..<?n] 0 k)"
      using 2(1) by (intro pool_loop_map) auto
    then show ?thesis
      using 2 by (simp add: random_sample_def sampled_slots_def map_nth Let_def)
  next
    case 3
    have n: "0 < ?n" using 3(2) setsize_ge[of k] by linarith
    show ?thesis
      using 3 set_loop_map[OF n, of rnd "{}" 0 k]
      by (simp add: random_sample_def sampled_slots_def Let_def option.map_comp comp_def)
  qed
qed

lemma sampled_slots_too_large: "n < k \<Longrightarrow> sampled_slots rnd n k = Some (Inl ValueError)"
  by (simp add: sampled_slots_def random_sample_def)

lemma sampled_slots_pool:
  "k \<le> n \<Longrightarrow> n \<le> setsize k \<Longrightarrow> sampled_slots rnd n k = Some (Inr (pool_loop rnd n [0..<n] 0 k))"
  by (simp add: sampled_slots_def random_sample_def)

lemma sampled_slots_set:
  "k \<le> n \<Longrightarrow> setsize k < n \<Longrightarrow>
     sampled_slots rnd n k = map_option Inr (set_loop rnd [0..<n] {} 0 k)"
  by (simp add: sampled_slots_def random_sample_def)

lemma sampled_slots_no_raise: "k \<le> n \<Longrightarrow> sampled_slots rnd n k \<noteq> Some (Inl e)"
  by (auto simp: sampled_slots_def random_sample_def)

lemma sampled_slots_props:
  assumes "sampled_slots rnd n k = Some (Inr js)"
  shows "k \<le> n \<and> length js = k \<and> distinct js \<and> set js \<subseteq> {..<n}"
proof -
  have k: "k \<le> n"
    using assms sampled_slots_too_large[of n k rnd] by (cases "n < k") auto
  show ?thesis
  proof (cases "n \<le> setsize k")
    case True
    have "distinct (pool_loop rnd n [0..<n] 0 k)
          \<and> set (pool_loop rnd n [0..<n] 0 k) \<subseteq> set (take (n - 0) [0..<n])"
      using k by (intro pool_loop_distinct) auto
    then show ?thesis
      using assms k sampled_slots_pool[OF k True, of rnd] by (auto simp: length_pool_loop)
  next
    case False
    then have big: "setsize k < n" by simp
    then have n: "0 < n" using setsize_ge[of k] by linarith
    from assms sampled_slots_set[OF k big, of rnd]
    have "set_loop rnd [0..<n] {} 0 k = Some js" by auto
    from set_loop_slots[OF this n] show ?thesis using k by simp
  qed
qed

lemma sampled_slots_returns:
  assumes "k \<le> n" "n \<le> setsize k \<or> (\<forall>c. \<forall>j<n. \<exists>d. rnd (c + d) mod n = j)"
  shows "\<exists>js. sampled_slots rnd n k = Some (Inr js)"
proof (cases "n \<le> setsize k")
  case True
  then show ?thesis using sampled_slots_pool[OF assms(1) True] by blast
next
  case False
  then have big: "setsize k < n" and rec: "\<forall>c. \<forall>j<n. \<exists>d. rnd (c + d) mod n = j"
    using assms(2) by auto
  have "card ({} \<inter> {..<n}) + k \<le> n" using assms(1) by simp
  from set_loop_returns[OF rec this, of 0] obtain js where
    "set_loop rnd [0..<n] {} 0 k = Some js" by blast
  then show ?thesis using sampled_slots_set[OF assms(1) big, of rnd] by simp
qed

lemma sampled_slots_uniform_pool:
  assumes "k \<le> n" "n \<le> setsize k" "distinct ys" "length ys = k" "set ys \<subseteq> {..<n}"
  shows "\<exists>rnd. sampled_slots rnd n k = Some (Inr ys)
           \<and> (\<forall>rnd'. sampled_slots rnd' n k = Some (Inr ys) \<longrightarrow> draws rnd' n k = draws rnd n k)"
  using pool_loop_uniform[OF assms(1,3,4,5)]
  by (simp add: sampled_slots_pool[OF assms(1,2)])

lemma sampled_slots_relabel:
  assumes "k \<le> n" "setsize k < n" "bij_betw \<sigma> {..<n} {..<n}"
  shows "sampled_slots (\<lambda>c. \<sigma> (rnd c mod n)) n k
         = map_option (map_sum id (map \<sigma>)) (sampled_slots rnd n k)"
proof -
  have n: "0 < n" using assms(2) setsize_ge[of k] by linarith
  have "set_loop (\<lambda>c. \<sigma> (rnd c mod n)) [0..<n] (\<sigma> ` {}) 0 k
         = map_option (map \<sigma>) (set_loop rnd [0..<n] {} 0 k)"
    by (rule set_loop_relabel[OF assms(3) _ n]) simp
  then show ?thesis
    by (simp add: sampled_slots_set[OF assms(1,2)] option.map_comp comp_def)
qed

lemma sample_too_large:
  assumes "ExpReplay_len m < k"
  shows "sample rnd m k = Some (Inl ValueError)"
proof -
  have "length (rows m) \<le> length (states m)" by (simp add: rows_def)
  then show ?thesis using assms by (simp add: sample_def random_sample_def ExpReplay_len_def)
qed

lemma sample_empty_batch: "sample rnd m 0 = Some (Inl ValueError)"
  by (simp add: sample_def random_sample_def Let_def)

lemma sample_slots:
  assumes "same_lengths m" "0 < k" "sampled_slots rnd (ExpReplay_len m) k = Some (Inr js)"
  shows "sample rnd m k =
           Some (Inr (map ((!) (states m)) js, map ((!) (actions m)) js, map ((!) (rewards m)) js,
                      map ((!) (next_states m)) js, map ((!) (dones m)) js))"
proof -
  have lr: "length (rows m) = ExpReplay_len m"
    using assms(1) by (simp add: length_rows ExpReplay_len_def)
  have rs: "random_sample rnd (rows m) k = Some (Inr (map ((!) (rows m)) js))"
    using random_sample_slots[of rnd "rows m" k] assms(3) lr by simp
  have sl: "length js = k" "set js \<subseteq> {..<ExpReplay_len m}"
    using sampled_slots_props[OF assms(3)] by auto
  have ne: "map ((!) (rows m)) js \<noteq> []" using sl(1) assms(2) by auto
  have comp: "\<And>i. i \<in> set js \<Longrightarrow>
      rows m ! i = (states m ! i, actions m ! i, rewards m ! i, next_states m ! i, dones m ! i)"
    using sl(2) assms(1) by (auto simp: rows_def same_lengths_def ExpReplay_len_def)
  show ?thesis
    using rs ne comp by (auto simp: sample_def split: list.splits)
qed

lemma sample_None:
  assumes "same_lengths m" "sampled_slots rnd (ExpReplay_len m) k = None"
  shows "sample rnd m k = None"
proof -
  have lr: "length (rows m) = ExpReplay_len m"
    using assms(1) by (simp add: length_rows ExpReplay_len_def)
  have "random_sample rnd (rows m) k = None"
    using random_sample_slots[of rnd "rows m" k] assms(2) lr by simp
  then show ?thesis by (simp add: sample_def)
qed

lemma ring_inv_slot_stored:
  assumes "ring_inv C xs m" "i < ExpReplay_len m"
  shows "\<exists>t \<in> set xs. rows m ! i = stored t"
proof -
  have sl: "same_lengths m" using assms(1) by (simp add: ring_inv_def)
  have "rows m ! i \<in> set (rows m)"
    using assms(2) length_rows[OF sl] by (simp add: ExpReplay_len_def)
  moreover have "mset (rows m) = mset (map stored (drop (length xs - C) xs))"
    using assms(1) by (simp add: ring_inv_def)
  then have "set (rows m) = set (map stored (drop (length xs - C) xs))"
    by (rule mset_eq_setD)
  ultimately have "rows m ! i \<in> stored ` set (drop (length xs - C) xs)" by simp
  then show ?thesis using set_drop_subset[of "length xs - C" xs] by auto
qed

lemma add_all_ring_inv:
  assumes "add_all (ExpReplay_init C) xs = Inr m" "0 < C"
  shows "ring_inv C xs m"
  using ring_inv_add_all[OF ring_inv_init assms(2), of xs] assms(1) by auto

lemma ceil_log4_step:
  "0 < fuel \<Longrightarrow> ceil_log4 fuel e m = (if m \<le> 4 ^ e then e else ceil_log4 (fuel - 1) (Suc e) m)"
  by (cases fuel) simp_all

lemma setsize_small: "k \<le> 5 \<Longrightarrow> setsize k = 21"
  by (simp add: setsize_def)

lemma setsize_256: "setsize 256 = 1045"
  by (simp add: setsize_def ceil_log4_step)

lemma reselect_stuck: "\<forall>d. rnd (c + d) mod n \<in> selected \<Longrightarrow> reselect rnd n selected c = None"
  by (simp add: reselect_None)

lemma big_memory_reach: "add_all (ExpReplay_init 30) big_transitions = Inr big_memory"
proof -
  have "length big_transitions \<le> 30" by (simp add: big_transitions_def)
  from add_all_below_capacity[OF this] show ?thesis
    by (simp add: big_transitions_def big_memory_def comp_def map_replicate_const)
qed

lemma small_slots: "sampled_slots Suc 3 2 = Some (Inr [1, 0])"
proof -
  have "pool_loop Suc 3 [0..<3] 0 2 = [1, 0]" by code_simp
  then show ?thesis by (simp add: sampled_slots_pool setsize_small)
qed

lemma big_slots: "sampled_slots (\<lambda>i. i + 21) 22 2 = Some (Inr [21, 0])"
  by (simp add: sampled_slots_set setsize_small numeral_2_eq_2 reselect_hit)

lemma big_slots_stuck: "sampled_slots (\<lambda>i. 0) 22 2 = None"
  by (simp add: sampled_slots_set setsize_small numeral_2_eq_2 reselect_hit reselect_stuck)

lemma swap_bij: "bij_betw (\<lambda>j. if j = 0 then 21 else if j = 21 then 0 else j) {..<22::nat} {..<22}"
  by (rule bij_betw_byWitness[where f' = "\<lambda>j. if j = 0 then 21 else if j = 21 then 0 else j"]) auto
section \<open>Target smoothing is an exponential moving average\<close>

lemma ema_Nil: "ema c t0 [] = t0"
  by (simp add: ema_def)

lemma ema_snoc: "ema c t0 (vs @ [v]) = v * c + ema c t0 vs * (1 - c)"
proof -
  have "map (\<lambda>k. c * (1 - c) ^ (length vs - k) * (vs @ [v]) ! k) [0..<length vs]
        = map (\<lambda>k. (1 - c) * (c * (1 - c) ^ (length vs - 1 - k) * vs ! k)) [0..<length vs]"
  proof (rule map_cong[OF refl])
    fix k assume "k \<in> set [0..<length vs]"
    then have k: "k < length vs" by simp
    then have "length vs - k = Suc (length vs - 1 - k)" by simp
    then show "c * (1 - c) ^ (length vs - k) * (vs @ [v]) ! k
               = (1 - c) * (c * (1 - c) ^ (length vs - 1 - k) * vs ! k)"
      using k by (simp add: nth_append)
  qed
  then have "sum_list (map (\<lambda>k. c * (1 - c) ^ (length vs - k) * (vs @ [v]) ! k) [0..<length vs])
        = sum_list (map (\<lambda>k. (1 - c) * (c * (1 - c) ^ (length vs - 1 - k) * vs ! k)) [0..<length vs])"
    by (rule arg_cong)
  also have "\<dots> = (1 - c) * sum_list (map (\<lambda>k. c * (1 - c) ^ (length vs - 1 - k) * vs ! k) [0..<length vs])"
    by (rule sum_list_const_mult)
  finally show ?thesis
    by (simp add: ema_def algebra_simps)
qed

lemma foldl_ema: "foldl (\<lambda>t v. v * c + t * (1 - c)) t0 vs = ema c t0 vs"
  by (induction vs rule: rev_induct) (simp_all add: ema_Nil ema_snoc)

lemma shape_smooth: "shape P = shape T \<Longrightarrow> shape (smooth c T P) = shape T"
proof (induction c T P rule: smooth.induct)
  case (1 c t_par ts par ps)
  then show ?case by (simp add: shape_def)
qed (simp_all add: shape_def)

lemma smooth_nth:
  "shape P = shape T \<Longrightarrow> p < length T \<Longrightarrow> e < length (T ! p) \<Longrightarrow>
     smooth c T P ! p ! e = P ! p ! e * c + T ! p ! e * (1 - c)"
proof (induction c T P arbitrary: p rule: smooth.induct)
  case (1 c t_par ts par ps)
  show ?case
  proof (cases p)
    case 0
    then show ?thesis using 1 by (simp add: shape_def)
  next
    case (Suc p')
    then show ?thesis using 1 by (simp add: shape_def)
  qed
qed (simp_all add: shape_def)

lemma foldl_smooth_shape:
  "\<forall>P \<in> set snaps. shape P = shape T \<Longrightarrow> shape (foldl (smooth c) T snaps) = shape T"
  by (induction snaps rule: rev_induct) (simp_all add: shape_smooth)

lemma foldl_smooth_ema:
  assumes "\<forall>P \<in> set snaps. shape P = shape T" "p < length T" "e < length (T ! p)"
  shows "foldl (smooth c) T snaps ! p ! e = ema c (T ! p ! e) (map (\<lambda>P. P ! p ! e) snaps)"
  using assms(1)
proof (induction snaps rule: rev_induct)
  case Nil
  then show ?case by (simp add: ema_Nil)
next
  case (snoc P snaps)
  let ?T' = "foldl (smooth c) T snaps"
  have sh: "shape ?T' = shape T" using snoc.prems by (intro foldl_smooth_shape) simp
  have sP: "shape P = shape ?T'" using snoc.prems sh by simp
  have lp: "p < length ?T'" using sh assms(2) by (metis shape_def length_map)
  have le: "e < length (?T' ! p)"
    using sh assms(2,3) lp by (metis shape_def nth_map)
  have "smooth c ?T' P ! p ! e = P ! p ! e * c + ?T' ! p ! e * (1 - c)"
    using smooth_nth[OF sP lp le] .
  moreover have "?T' ! p ! e = ema c (T ! p ! e) (map (\<lambda>P. P ! p ! e) snaps)"
    using snoc by simp
  ultimately show ?case by (simp add: ema_snoc)
qed

lemma optimize_model_target:
  "optimize_model lib cfg r zz ag = Some (Inr (ag', l)) \<Longrightarrow>
     v_target_net ag' = v_target_net ag \<and> memory ag' = memory ag"
  by (auto simp: optimize_model_def gradient_updates_def value_critic_updates_def policy_update_def
      Let_def split: if_splits sum.splits prod.splits option.splits)

lemma train_step_target:
  assumes "train_step lib env cfg nz L = Some (Inr L')"
  shows "v_target_net (agent L')
           = smooth (target_smoothing_coeff cfg) (v_target_net (agent L)) (v_net (agent L'))
         \<and> steps L' = steps L + 1"
proof -
  obtain e' next_state reward d where st: "env_step env (env_state L)
      (get_action cfg (policy (agent L)) (state L) (act_eps nz)) = (e', next_state, reward, d)"
    by (metis prod_cases4)
  from assms st obtain mem' ag' loss' where
    o: "optimize_model lib cfg (sample_rnd nz) (opt_z nz) ((agent L)\<lparr>memory := mem'\<rparr>) = Some (Inr (ag', loss'))"
    and L': "L' = L\<lparr>agent := ag'\<lparr>v_target_net :=
                                     smooth (target_smoothing_coeff cfg) (v_target_net ag') (v_net ag')\<rparr>,
                        env_state := e', state := next_state, is_done := d,
                        rew_ep := rew_ep L + reward, steps := steps L + 1, loss := loss'\<rparr>"
    by (auto simp: train_step_def Let_def split: sum.splits prod.splits option.splits)
  from optimize_model_target[OF o] show ?thesis by (simp add: L')
qed

section \<open>The training loop and the actions\<close>

lemma train_step_unfold:
  assumes "train_step lib env cfg nz L = Some (Inr L')"
  shows "\<exists>mem' ag' l.
           optimize_model lib cfg (sample_rnd nz) (opt_z nz) ((agent L)\<lparr>memory := mem'\<rparr>) = Some (Inr (ag', l))
           \<and> loss L' = l
           \<and> v_target_net ag' = v_target_net (agent L)
           \<and> agent L' = ag'\<lparr>v_target_net :=
                 smooth (target_smoothing_coeff cfg) (v_target_net (agent L)) (v_net ag')\<rparr>"
proof -
  obtain e' next_state reward d where st: "env_step env (env_state L)
      (get_action cfg (policy (agent L)) (state L) (act_eps nz)) = (e', next_state, reward, d)"
    by (metis prod_cases4)
  from assms st obtain mem' ag' loss' where
    o: "optimize_model lib cfg (sample_rnd nz) (opt_z nz) ((agent L)\<lparr>memory := mem'\<rparr>) = Some (Inr (ag', loss'))"
    and L': "L' = L\<lparr>agent := ag'\<lparr>v_target_net :=
                                     smooth (target_smoothing_coeff cfg) (v_target_net ag') (v_net ag')\<rparr>,
                        env_state := e', state := next_state, is_done := d,
                        rew_ep := rew_ep L + reward, steps := steps L + 1, loss := loss'\<rparr>"
    by (auto simp: train_step_def Let_def split: sum.splits prod.splits option.splits)
  have t: "v_target_net ag' = v_target_net (agent L)"
    using optimize_model_target[OF o] by simp
  show ?thesis
    using o t by (intro exI[of _ mem'] exI[of _ ag'] exI[of _ loss']) (simp add: L')
qed

lemma while_not_done_trace:
  assumes "while_not_done lib env cfg nzs L = Some (Inr L')"
  shows "length (loop_trace lib env cfg nzs L) = steps L' - steps L
         \<and> steps L \<le> steps L'
         \<and> v_target_net (agent L')
             = foldl (smooth (target_smoothing_coeff cfg)) (v_target_net (agent L))
                 (map (\<lambda>K. v_net (agent K)) (loop_trace lib env cfg nzs L))"
  using assms
proof (induction nzs arbitrary: L)
  case Nil
  then show ?case by (simp split: if_splits)
next
  case (Cons nz nzs)
  show ?case
  proof (cases "is_done L")
    case True
    then show ?thesis using Cons.prems by simp
  next
    case False
    then obtain L1 where L1: "train_step lib env cfg nz L = Some (Inr L1)"
      and w: "while_not_done lib env cfg nzs L1 = Some (Inr L')"
      using Cons.prems by (auto split: sum.splits option.splits)
    note ih = Cons.IH[OF w]
    have t: "v_target_net (agent L1)
           = smooth (target_smoothing_coeff cfg) (v_target_net (agent L)) (v_net (agent L1))"
      and s: "steps L1 = steps L + 1"
      using train_step_target[OF L1] by simp_all
    have le: "Suc (steps L) \<le> steps L'" using ih s by simp
    then have "Suc (steps L' - Suc (steps L)) = steps L' - steps L" by simp
    then show ?thesis using False L1 ih t s le by simp
  qed
qed

lemma Actor_forward_mean:
  "fst (Actor_forward cfg \<pi> st)
     = linear (fc_mean \<pi>) (map relu (linear (Actor.fc2 \<pi>) (map relu (linear (Actor.fc1 \<pi>) st))))"
  by (simp add: Actor_forward_def Let_def)

lemma optimize_model_action_scale:
  "optimize_model lib cfg r zz ag = Some (Inr (ag', l)) \<Longrightarrow>
     action_scale (policy ag') = action_scale (policy ag)"
  by (auto simp: optimize_model_def gradient_updates_def value_critic_updates_def policy_update_def
      Let_def Actor_load_def split: if_splits sum.splits prod.splits option.splits)

lemma main_init_action_scale:
  "main_init cfg env layers q1 q2 v vt oa oq ov = Inr ag \<Longrightarrow>
     action_scale (policy ag) = action_space_high env"
  by (auto simp: main_init_def split: prod.splits sum.splits)

lemma tanh_scaled_bound: "\<bar>tanh (x::real) * s\<bar> \<le> \<bar>s\<bar>"
proof -
  have "\<bar>tanh x\<bar> \<le> 1"
    using tanh_real_lt_1[of x] tanh_real_gt_neg1[of x] by (simp add: abs_le_iff less_imp_le)
  then have "\<bar>tanh x\<bar> * \<bar>s\<bar> \<le> 1 * \<bar>s\<bar>" by (intro mult_right_mono) simp_all
  then show ?thesis by (simp add: abs_mult)
qed

section \<open>The small instance, evaluated\<close>

lemma tiny_init:
  "main_init tiny_config tiny_env (tiny_layer, tiny_layer, tiny_layer, tiny_layer)
     tiny_qnet tiny_qnet [[0]] [[7]] 0 0 0 = Inr tiny_agent"
  by (simp add: main_init_def load_state_dict_def shape_def tiny_agent_def tiny_actor_def
      tiny_env_def tiny_config_def default_config_def)

lemma tiny_action: "get_action tiny_config tiny_actor st [0] = [0]"
  by (simp add: get_action_def Actor_forward_def linear_def relu_def clamp_def tiny_actor_def
      tiny_layer_def Normal_sample_def tiny_config_def default_config_def)

lemmas tiny_defs = tiny_layer_def tiny_actor_def tiny_qnet_def tiny_lib_def tiny_env_def
  tiny_config_def tiny_noise_def tiny_agent_def tiny_loop_def default_config_def

lemmas run_defs = train_step_def optimize_model_def gradient_updates_def value_critic_updates_def
  policy_update_def setsize_def add_def ExpReplay_init_def ExpReplay_len_def
  sample_def random_sample_def rows_def torch_tensor_def rewards_tensor_def dones_tensor_def
  get_action_def Actor_forward_def linear_def relu_def clamp_def Normal_sample_def Let_def
  Actor_load_def Actor_parameters_def

lemma tiny_run:
  "\<exists>L'. while_not_done tiny_lib tiny_env tiny_config [tiny_noise, tiny_noise, tiny_noise] tiny_loop
            = Some (Inr L')
     \<and> steps L' = 3 \<and> v_target_net (agent L') = [[17 / 8]]"
  by (simp add: tiny_defs run_defs)

lemma tiny_trace:
  "map (\<lambda>K. v_net (agent K))
     (loop_trace tiny_lib tiny_env tiny_config [tiny_noise, tiny_noise, tiny_noise] tiny_loop)
   = [[[1]], [[2]], [[3]]]"
  by (simp add: tiny_defs run_defs)

section \<open>Claims about the replay buffer\<close>

text \<open>
  Claim C6. Let a buffer of capacity \<open>C\<close>, at least one, receive the transitions
  \<open>xs\<close> in this order, starting empty. No insertion raises. The size of the buffer
  is the minimum of \<open>C\<close> and the number of insertions. The buffer holds the last
  \<open>min (length xs) C\<close> transitions that were inserted, each once, and so the rewards
  of these. Once \<open>C\<close> transitions have been inserted, the slot under the pointer
  holds the oldest of the transitions still stored, and the next insertion replaces
  that slot and no other, the size staying \<open>C\<close>.
\<close>

theorem ring_buffer_invariant:
  assumes "0 < C"
  shows "\<exists>m. add_all (ExpReplay_init C) xs = Inr m
           \<and> ExpReplay_len m = min (length xs) C
           \<and> mset (rows m) = mset (map stored (drop (length xs - C) xs))
           \<and> mset (rewards m) = mset (map (\<lambda>(s, a, r, s', d). Some r) (drop (length xs - C) xs))
           \<and> (C \<le> length xs \<longrightarrow>
                rows m ! pointer m = stored (xs ! (length xs - C))
                \<and> (\<forall>t. \<exists>m'. add m t = Inr m' \<and> ExpReplay_len m' = C
                           \<and> rows m' = (rows m)[pointer m := stored t]))"
proof -
  from ring_inv_add_all[OF ring_inv_init assms, of xs]
  obtain m where m: "add_all (ExpReplay_init C) xs = Inr m" "ring_inv C xs m"
    by auto
  have len: "ExpReplay_len m = min (length xs) C"
    using m(2) by (simp add: ring_inv_def ExpReplay_len_def)
  have ms: "mset (rows m) = mset (map stored (drop (length xs - C) xs))"
    using m(2) by (simp add: ring_inv_def)
  have sl: "same_lengths m" using m(2) by (simp add: ring_inv_def)
  have "mset (rewards m) = image_mset (fst \<circ> snd \<circ> snd) (mset (rows m))"
    using rewards_rows[OF sl] by (metis mset_map)
  also have "\<dots> = image_mset (fst \<circ> snd \<circ> snd) (mset (map stored (drop (length xs - C) xs)))"
    by (simp only: ms)
  also have "\<dots> = mset (map (\<lambda>t. (fst \<circ> snd \<circ> snd) (stored t)) (drop (length xs - C) xs))"
    by (simp add: multiset.map_comp comp_def)
  also have "\<dots> = mset (map (\<lambda>(s, a, r, s', d). Some r) (drop (length xs - C) xs))"
    by (simp only: stored_reward)
  finally have rw: "mset (rewards m) = mset (map (\<lambda>(s, a, r, s', d). Some r) (drop (length xs - C) xs))" .
  have full: "rows m ! pointer m = stored (xs ! (length xs - C))
        \<and> (\<forall>t. \<exists>m'. add m t = Inr m' \<and> ExpReplay_len m' = C
                           \<and> rows m' = (rows m)[pointer m := stored t])" if "C \<le> length xs"
    using ring_inv_oldest[OF m(2) assms that] ring_inv_overwrite[OF m(2) assms that] by blast
  show ?thesis using m(1) len ms rw full by blast
qed

text \<open>
  The scenario of the specification: capacity five, seven transitions with the rewards
  one to seven. The buffer ends with size five and the rewards three to seven.
\<close>

theorem ring_buffer_capacity_5:
  "\<exists>m. add_all (ExpReplay_init 5)
          (map (\<lambda>r. (r, r, int r, Suc r, False)) [1, 2, 3, 4, 5, 6, 7 :: nat]) = Inr m
       \<and> ExpReplay_len m = 5
       \<and> set (rewards m) = {Some 3, Some 4, Some 5, Some 6, Some 7}"
proof -
  from ring_buffer_invariant[of 5 "map (\<lambda>r. (r, r, int r, Suc r, False)) [1, 2, 3, 4, 5, 6, 7 :: nat]"]
  obtain m where m: "add_all (ExpReplay_init 5)
          (map (\<lambda>r. (r, r, int r, Suc r, False)) [1, 2, 3, 4, 5, 6, 7 :: nat]) = Inr m"
      "ExpReplay_len m = 5"
      "mset (rewards m) = mset [Some 3, Some 4, Some 5, Some 6, Some (7::int)]"
    by auto
  have "set (rewards m) = set [Some 3, Some 4, Some 5, Some 6, Some (7::int)]"
    using m(3) by (metis set_mset_mset)
  then show ?thesis using m(1,2) by auto
qed

text \<open>
  Claim C7, as amended. Let \<open>m\<close> be a buffer that received the transitions \<open>xs\<close>
  from empty, of size \<open>n\<close>. A batch size above \<open>n\<close> makes \<^verbatim>\<open>sample\<close> raise
  \<^verbatim>\<open>ValueError\<close>, the error of \<^verbatim>\<open>random.sample\<close>. For a batch size \<open>k\<close>
  from one to \<open>n\<close>, \<^verbatim>\<open>sample\<close> does not raise; when the library's sample of the
  slots returns, \<^verbatim>\<open>sample\<close> returns the contents of these \<open>k\<close> slots of the
  buffer, no slot twice, each holding a transition that was inserted; and when
  it does not return, neither does \<^verbatim>\<open>sample\<close>. The sample returns whenever
  \<open>n\<close> is at most \<^verbatim>\<open>setsize\<close>, where the library selects from a pool, and
  above that size whenever every slot keeps coming back among the numbers drawn,
  so that the loop of the library that redraws selected slots ends.

  Uniformity. Up to \<^verbatim>\<open>setsize\<close>, every arrangement of \<open>k\<close> distinct slots is the
  result for some draws, and for exactly one vector of numbers returned by
  \<^verbatim>\<open>randbelow\<close>. Above \<^verbatim>\<open>setsize\<close>, relabelling the slots drawn by a permutation
  of the slots relabels the sample by the same permutation. Either way equally
  likely independent draws make all arrangements equally likely, in whatever
  order.
\<close>

theorem sample_distinct_slots:
  assumes "add_all (ExpReplay_init C) xs = Inr m" and "0 < C" and "ExpReplay_len m = n"
  shows "(n < k \<longrightarrow> sample rnd m k = Some (Inl ValueError))
       \<and> (0 < k \<and> k \<le> n \<longrightarrow>
            (\<forall>e. sample rnd m k \<noteq> Some (Inl e))
            \<and> (\<forall>js. sampled_slots rnd n k = Some (Inr js) \<longrightarrow>
                 sample rnd m k =
                   Some (Inr (map ((!) (states m)) js, map ((!) (actions m)) js,
                              map ((!) (rewards m)) js, map ((!) (next_states m)) js,
                              map ((!) (dones m)) js))
                 \<and> length js = k \<and> distinct js
                 \<and> (\<forall>i \<in> set js. i < n \<and> (\<exists>t \<in> set xs. rows m ! i = stored t)))
            \<and> (sampled_slots rnd n k = None \<longrightarrow> sample rnd m k = None)
            \<and> (n \<le> setsize k \<or> (\<forall>c. \<forall>j<n. \<exists>d. rnd (c + d) mod n = j) \<longrightarrow>
                 (\<exists>js. sampled_slots rnd n k = Some (Inr js))))
       \<and> (\<forall>ys. k \<le> n \<and> n \<le> setsize k \<and> distinct ys \<and> length ys = k \<and> set ys \<subseteq> {..<n} \<longrightarrow>
            (\<exists>rnd0. sampled_slots rnd0 n k = Some (Inr ys)
               \<and> (\<forall>rnd'. sampled_slots rnd' n k = Some (Inr ys) \<longrightarrow>
                     draws rnd' n k = draws rnd0 n k)))
       \<and> (\<forall>\<sigma>. k \<le> n \<and> setsize k < n \<and> bij_betw \<sigma> {..<n} {..<n} \<longrightarrow>
            sampled_slots (\<lambda>c. \<sigma> (rnd c mod n)) n k
              = map_option (map_sum id (map \<sigma>)) (sampled_slots rnd n k))"
proof -
  have inv: "ring_inv C xs m" using add_all_ring_inv[OF assms(1,2)] .
  then have sl: "same_lengths m" by (simp add: ring_inv_def)
  note n = assms(3)
  have a: "n < k \<longrightarrow> sample rnd m k = Some (Inl ValueError)"
    using sample_too_large[of m k rnd] n by blast
  have b1: "\<forall>e. sample rnd m k \<noteq> Some (Inl e)" if k: "0 < k \<and> k \<le> n"
  proof (intro allI notI)
    fix e assume r: "sample rnd m k = Some (Inl e)"
    show False
    proof (cases "sampled_slots rnd n k")
      case None
      then show False using sample_None[OF sl, of rnd k] n r by simp
    next
      case (Some res)
      show False
      proof (cases res)
        case (Inl e')
        then show False using Some sampled_slots_no_raise[of k n rnd e'] k by simp
      next
        case (Inr js)
        then show False using Some sample_slots[OF sl, of k rnd js] n k r by simp
      qed
    qed
  qed
  have b2: "\<forall>js. sampled_slots rnd n k = Some (Inr js) \<longrightarrow>
                 sample rnd m k =
                   Some (Inr (map ((!) (states m)) js, map ((!) (actions m)) js,
                              map ((!) (rewards m)) js, map ((!) (next_states m)) js,
                              map ((!) (dones m)) js))
                 \<and> length js = k \<and> distinct js
                 \<and> (\<forall>i \<in> set js. i < n \<and> (\<exists>t \<in> set xs. rows m ! i = stored t))"
    if k: "0 < k \<and> k \<le> n"
  proof (intro allI impI)
    fix js assume s: "sampled_slots rnd n k = Some (Inr js)"
    note p = sampled_slots_props[OF s]
    have st: "\<forall>i \<in> set js. i < n \<and> (\<exists>t \<in> set xs. rows m ! i = stored t)"
      using p ring_inv_slot_stored[OF inv] n by auto
    show "sample rnd m k =
                   Some (Inr (map ((!) (states m)) js, map ((!) (actions m)) js,
                              map ((!) (rewards m)) js, map ((!) (next_states m)) js,
                              map ((!) (dones m)) js))
                 \<and> length js = k \<and> distinct js
                 \<and> (\<forall>i \<in> set js. i < n \<and> (\<exists>t \<in> set xs. rows m ! i = stored t))"
      using sample_slots[OF sl, of k rnd js] s n k p st by simp
  qed
  have b3: "sampled_slots rnd n k = None \<longrightarrow> sample rnd m k = None"
    using sample_None[OF sl, of rnd k] n by simp
  have b4: "n \<le> setsize k \<or> (\<forall>c. \<forall>j<n. \<exists>d. rnd (c + d) mod n = j) \<longrightarrow>
                 (\<exists>js. sampled_slots rnd n k = Some (Inr js))"
    if k: "0 < k \<and> k \<le> n"
    using sampled_slots_returns[of k n rnd] k by blast
  have b: "0 < k \<and> k \<le> n \<longrightarrow>
            (\<forall>e. sample rnd m k \<noteq> Some (Inl e))
            \<and> (\<forall>js. sampled_slots rnd n k = Some (Inr js) \<longrightarrow>
                 sample rnd m k =
                   Some (Inr (map ((!) (states m)) js, map ((!) (actions m)) js,
                              map ((!) (rewards m)) js, map ((!) (next_states m)) js,
                              map ((!) (dones m)) js))
                 \<and> length js = k \<and> distinct js
                 \<and> (\<forall>i \<in> set js. i < n \<and> (\<exists>t \<in> set xs. rows m ! i = stored t)))
            \<and> (sampled_slots rnd n k = None \<longrightarrow> sample rnd m k = None)
            \<and> (n \<le> setsize k \<or> (\<forall>c. \<forall>j<n. \<exists>d. rnd (c + d) mod n = j) \<longrightarrow>
                 (\<exists>js. sampled_slots rnd n k = Some (Inr js)))"
  proof (rule impI)
    assume k: "0 < k \<and> k \<le> n"
    show "(\<forall>e. sample rnd m k \<noteq> Some (Inl e))
            \<and> (\<forall>js. sampled_slots rnd n k = Some (Inr js) \<longrightarrow>
                 sample rnd m k =
                   Some (Inr (map ((!) (states m)) js, map ((!) (actions m)) js,
                              map ((!) (rewards m)) js, map ((!) (next_states m)) js,
                              map ((!) (dones m)) js))
                 \<and> length js = k \<and> distinct js
                 \<and> (\<forall>i \<in> set js. i < n \<and> (\<exists>t \<in> set xs. rows m ! i = stored t)))
            \<and> (sampled_slots rnd n k = None \<longrightarrow> sample rnd m k = None)
            \<and> (n \<le> setsize k \<or> (\<forall>c. \<forall>j<n. \<exists>d. rnd (c + d) mod n = j) \<longrightarrow>
                 (\<exists>js. sampled_slots rnd n k = Some (Inr js)))"
      using b1[OF k] b2[OF k] b3 b4[OF k] by (intro conjI)
  qed
  have c: "\<forall>ys. k \<le> n \<and> n \<le> setsize k \<and> distinct ys \<and> length ys = k \<and> set ys \<subseteq> {..<n} \<longrightarrow>
            (\<exists>rnd0. sampled_slots rnd0 n k = Some (Inr ys)
               \<and> (\<forall>rnd'. sampled_slots rnd' n k = Some (Inr ys) \<longrightarrow>
                     draws rnd' n k = draws rnd0 n k))"
    using sampled_slots_uniform_pool[of k n] by blast
  have d: "\<forall>\<sigma>. k \<le> n \<and> setsize k < n \<and> bij_betw \<sigma> {..<n} {..<n} \<longrightarrow>
            sampled_slots (\<lambda>c. \<sigma> (rnd c mod n)) n k
              = map_option (map_sum id (map \<sigma>)) (sampled_slots rnd n k)"
    using sampled_slots_relabel[of k n _ rnd] by blast
  show ?thesis by (intro conjI a b c d)
qed

text \<open>
  A buffer of three transitions, sampled from a pool: a batch of four raises, a batch
  of two returns the slots one and zero in this order under the draws \<open>Suc\<close>. A
  buffer of twenty-two transitions, above \<^verbatim>\<open>setsize\<close> for a batch of two: the
  draws 21, 22, ... give the slots 21 and 0; exchanging the labels of these two
  slots gives the slots 0 and 21; under the constant draw 0 the sample does not
  return; under the draws 0, 1, 2, ..., in which every slot keeps coming back, it
  returns. The batch size of the source has \<^verbatim>\<open>setsize\<close> 1045.
\<close>

theorem sample_distinct_slots_witness:
  "add_all (ExpReplay_init 5) [(1, 10, 1, 2, False), (2, 20, 2, 3, False), (3, 30, 3, 4, True)]
     = Inr \<lparr>states = [Some (1::nat), Some 2, Some 3], actions = [Some (10::nat), Some 20, Some 30],
            rewards = [Some (1::int), Some 2, Some 3], next_states = [Some 2, Some 3, Some 4],
            dones = [Some False, Some False, Some True], pointer = 3, max_len = 5\<rparr>
   \<and> sample Suc \<lparr>states = [Some (1::nat), Some 2, Some 3], actions = [Some (10::nat), Some 20, Some 30],
            rewards = [Some (1::int), Some 2, Some 3], next_states = [Some 2, Some 3, Some 4],
            dones = [Some False, Some False, Some True], pointer = 3, max_len = 5\<rparr> 4
       = Some (Inl ValueError)
   \<and> sampled_slots Suc 3 2 = Some (Inr [1, 0])
   \<and> sample Suc \<lparr>states = [Some (1::nat), Some 2, Some 3], actions = [Some (10::nat), Some 20, Some 30],
            rewards = [Some (1::int), Some 2, Some 3], next_states = [Some 2, Some 3, Some 4],
            dones = [Some False, Some False, Some True], pointer = 3, max_len = 5\<rparr> 2
       = Some (Inr ([Some 2, Some 1], [Some 20, Some 10], [Some 2, Some 1], [Some 3, Some 2],
                    [Some False, Some False]))
   \<and> (\<exists>rnd0. sampled_slots rnd0 3 2 = Some (Inr [2, 0])
          \<and> (\<forall>rnd'. sampled_slots rnd' 3 2 = Some (Inr [2, 0]) \<longrightarrow> draws rnd' 3 2 = draws rnd0 3 2))
   \<and> add_all (ExpReplay_init 30) big_transitions = Inr big_memory
   \<and> ExpReplay_len big_memory = 22 \<and> setsize 2 = 21 \<and> setsize 256 = 1045
   \<and> sampled_slots (\<lambda>i. i + 21) 22 2 = Some (Inr [21, 0])
   \<and> sample (\<lambda>i. i + 21) big_memory 2
       = Some (Inr ([Some 21, Some 0], [Some 210, Some 0], [Some 21, Some 0], [Some 22, Some 1],
                    [Some False, Some False]))
   \<and> sampled_slots (\<lambda>c. if (c + 21) mod 22 = 0 then 21 else if (c + 21) mod 22 = 21 then 0
                           else (c + 21) mod 22) 22 2
       = Some (Inr [0, 21])
   \<and> sampled_slots (\<lambda>i. 0) 22 2 = None
   \<and> sample (\<lambda>i. 0) big_memory 2 = None
   \<and> (\<exists>js. sampled_slots id 22 2 = Some (Inr js))"
proof -
  let ?m = "\<lparr>states = [Some (1::nat), Some 2, Some 3], actions = [Some (10::nat), Some 20, Some 30],
            rewards = [Some (1::int), Some 2, Some 3], next_states = [Some 2, Some 3, Some 4],
            dones = [Some False, Some False, Some True], pointer = 3, max_len = 5\<rparr>"
  have r: "add_all (ExpReplay_init 5) [(1, 10, 1, 2, False), (2, 20, 2, 3, False), (3, 30, 3, 4, True)]
     = Inr ?m"
    by (simp add: add_def ExpReplay_init_def)
  have n: "ExpReplay_len ?m = 3" by (simp add: ExpReplay_len_def)
  have C5: "0 < (5::nat)" and C30: "0 < (30::nat)" by simp_all
  have nb: "ExpReplay_len big_memory = 22" by (simp add: ExpReplay_len_def big_memory_def)
  have s2: "setsize 2 = 21" by (simp add: setsize_small)
  note th4 = sample_distinct_slots[OF r C5 n, of 4 Suc]
  note th2 = sample_distinct_slots[OF r C5 n, of 2 Suc]
  note tb = sample_distinct_slots[OF big_memory_reach C30 nb, of 2 "\<lambda>i. i + 21"]
  note tz = sample_distinct_slots[OF big_memory_reach C30 nb, of 2 "\<lambda>i. 0"]
  note ti = sample_distinct_slots[OF big_memory_reach C30 nb, of 2 id]
  have a: "sample Suc ?m 4 = Some (Inl ValueError)"
    using th4[THEN conjunct1] by simp
  have k2: "0 < (2::nat) \<and> (2::nat) \<le> 3" and k22: "0 < (2::nat) \<and> (2::nat) \<le> 22" by simp_all
  note in2 = th2[THEN conjunct2, THEN conjunct1, THEN mp, OF k2]
  have b: "sample Suc ?m 2 = Some (Inr ([Some 2, Some 1], [Some 20, Some 10], [Some 2, Some 1],
              [Some 3, Some 2], [Some False, Some False]))"
    using in2[THEN conjunct2, THEN conjunct1, rule_format, OF small_slots] by simp
  have "(2::nat) \<le> 3 \<and> (3::nat) \<le> setsize 2 \<and> distinct [2, 0::nat] \<and> length [2, 0::nat] = 2
          \<and> set [2, 0::nat] \<subseteq> {..<3}"
    by (simp add: s2)
  from th2[THEN conjunct2, THEN conjunct2, THEN conjunct1, rule_format, OF this]
  have c: "\<exists>rnd0. sampled_slots rnd0 3 2 = Some (Inr [2, 0])
          \<and> (\<forall>rnd'. sampled_slots rnd' 3 2 = Some (Inr [2, 0]) \<longrightarrow> draws rnd' 3 2 = draws rnd0 3 2)" .
  note inb = tb[THEN conjunct2, THEN conjunct1, THEN mp, OF k22]
  have d: "sample (\<lambda>i. i + 21) big_memory 2
       = Some (Inr ([Some 21, Some 0], [Some 210, Some 0], [Some 21, Some 0], [Some 22, Some 1],
                    [Some False, Some False]))"
    using inb[THEN conjunct2, THEN conjunct1, rule_format, OF big_slots]
    by (simp add: big_memory_def)
  have "(2::nat) \<le> 22 \<and> setsize 2 < 22
          \<and> bij_betw (\<lambda>j. if j = 0 then 21 else if j = 21 then 0 else j) {..<22::nat} {..<22}"
    using swap_bij by (simp add: s2)
  from tb[THEN conjunct2, THEN conjunct2, THEN conjunct2, rule_format, OF this]
  have e: "sampled_slots (\<lambda>c. if (c + 21) mod 22 = 0 then 21 else if (c + 21) mod 22 = 21 then 0
                           else (c + 21) mod 22) 22 2
       = Some (Inr [0, 21])"
    by (simp add: big_slots)
  note inz = tz[THEN conjunct2, THEN conjunct1, THEN mp, OF k22]
  have f: "sample (\<lambda>i. 0) big_memory 2 = None"
    using inz[THEN conjunct2, THEN conjunct2, THEN conjunct1] big_slots_stuck by (rule mp)
  note ini = ti[THEN conjunct2, THEN conjunct1, THEN mp, OF k22]
  have rec: "(22::nat) \<le> setsize 2 \<or> (\<forall>c::nat. \<forall>j<22. \<exists>d. id (c + d) mod 22 = j)"
  proof (rule disjI2, intro allI impI)
    fix c j :: nat assume j: "j < 22"
    have "c + (21 * c + j) = j + 22 * c" by simp
    then have "(c + (21 * c + j)) mod 22 = j mod 22" by (simp only: mod_mult_self2)
    then have "(c + (21 * c + j)) mod 22 = j" using j by simp
    then show "\<exists>d. id (c + d) mod 22 = j" by (intro exI[of _ "21 * c + j"]) simp
  qed
  have g: "\<exists>js. sampled_slots id 22 2 = Some (Inr js)"
    using ini[THEN conjunct2, THEN conjunct2, THEN conjunct2] rec by (rule mp)
  show ?thesis
    by (intro conjI r a small_slots b c big_memory_reach nb s2 setsize_256 big_slots d e
        big_slots_stuck f g)
qed

text \<open>
  Claim C7 as stated fails at batch size zero: the buffer holds one transition, zero
  is at most its size, and \<^verbatim>\<open>sample\<close> raises instead of returning an empty batch.
\<close>

theorem sample_empty_batch_raises:
  "add_all (ExpReplay_init 5) [(1, 10, 1, 2, False)]
     = Inr \<lparr>states = [Some (1::nat)], actions = [Some (10::nat)], rewards = [Some (1::int)],
            next_states = [Some 2], dones = [Some False], pointer = 1, max_len = 5\<rparr>
   \<and> 0 \<le> ExpReplay_len \<lparr>states = [Some (1::nat)], actions = [Some (10::nat)], rewards = [Some (1::int)],
            next_states = [Some 2], dones = [Some False], pointer = 1, max_len = 5\<rparr>
   \<and> sample id \<lparr>states = [Some (1::nat)], actions = [Some (10::nat)], rewards = [Some (1::int)],
            next_states = [Some 2], dones = [Some False], pointer = 1, max_len = 5\<rparr> 0
       = Some (Inl ValueError)"
  by (simp add: add_def ExpReplay_init_def sample_empty_batch)

section \<open>Claims about target smoothing and the actions\<close>

text \<open>
  Claim C1. The construction of the main block leaves the target value network equal
  to the value network. One pass of the training loop takes one environment step,
  runs the optimisation step, which leaves the target as it was, and then replaces
  the target by \<open>par * c + t_par * (1 - c)\<close>, elementwise, with the value parameters
  as the optimisation step left them. After a run of the loop the target is the
  fold of this rule over the value parameters after each pass, one per counted step,
  and each of its entries is the exponential moving average in closed form of the
  initial entry and these snapshots, as long as the tensors keep their shapes. For
  the parameter sequence 1, 2, 3 under the coefficient one half from the initial
  target 0 the target takes the values 1/2, 5/4 and 17/8.
\<close>

theorem target_smoothing_ema:
  "(main_init cfg env layers q1 q2 v vt oa oq ov = Inr ag \<longrightarrow> v_target_net ag = v_net ag)
   \<and> (train_step lib env cfg nz L = Some (Inr L1) \<longrightarrow>
        steps L1 = steps L + 1
        \<and> (\<exists>mem' ag' l.
             optimize_model lib cfg (sample_rnd nz) (opt_z nz) ((agent L)\<lparr>memory := mem'\<rparr>) = Some (Inr (ag', l))
             \<and> v_target_net ag' = v_target_net (agent L)
             \<and> agent L1 = ag'\<lparr>v_target_net :=
                   smooth (target_smoothing_coeff cfg) (v_target_net (agent L)) (v_net ag')\<rparr>))
   \<and> (while_not_done lib env cfg nzs L = Some (Inr L') \<longrightarrow>
        length (loop_trace lib env cfg nzs L) = steps L' - steps L
        \<and> v_target_net (agent L')
             = foldl (smooth (target_smoothing_coeff cfg)) (v_target_net (agent L))
                 (map (\<lambda>K. v_net (agent K)) (loop_trace lib env cfg nzs L))
        \<and> ((\<forall>K \<in> set (loop_trace lib env cfg nzs L).
                shape (v_net (agent K)) = shape (v_target_net (agent L)))
             \<and> p < length (v_target_net (agent L)) \<and> e < length (v_target_net (agent L) ! p) \<longrightarrow>
             v_target_net (agent L') ! p ! e
               = ema (target_smoothing_coeff cfg) (v_target_net (agent L) ! p ! e)
                   (map (\<lambda>K. v_net (agent K) ! p ! e) (loop_trace lib env cfg nzs L))))
   \<and> smooth c [[t]] [[x]] = [[x * c + t * (1 - c)]]
   \<and> foldl (smooth (1 / 2)) [[0]] [[[1]]] = [[1 / 2]]
   \<and> foldl (smooth (1 / 2)) [[0]] [[[1]], [[2]]] = [[5 / 4]]
   \<and> foldl (smooth (1 / 2)) [[0]] [[[1]], [[2]], [[3]]] = [[17 / 8]]
   \<and> ema (1 / 2) 0 [1, 2, 3] = 17 / 8"
proof -
  have a: "main_init cfg env layers q1 q2 v vt oa oq ov = Inr ag \<longrightarrow> v_target_net ag = v_net ag"
    by (auto simp: main_init_def load_state_dict_def split: prod.splits if_splits)
  have b: "train_step lib env cfg nz L = Some (Inr L1) \<longrightarrow>
        steps L1 = steps L + 1
        \<and> (\<exists>mem' ag' l.
             optimize_model lib cfg (sample_rnd nz) (opt_z nz) ((agent L)\<lparr>memory := mem'\<rparr>) = Some (Inr (ag', l))
             \<and> v_target_net ag' = v_target_net (agent L)
             \<and> agent L1 = ag'\<lparr>v_target_net :=
                   smooth (target_smoothing_coeff cfg) (v_target_net (agent L)) (v_net ag')\<rparr>)"
  proof
    assume t: "train_step lib env cfg nz L = Some (Inr L1)"
    from train_step_unfold[OF t] train_step_target[OF t]
    show "steps L1 = steps L + 1
        \<and> (\<exists>mem' ag' l.
             optimize_model lib cfg (sample_rnd nz) (opt_z nz) ((agent L)\<lparr>memory := mem'\<rparr>) = Some (Inr (ag', l))
             \<and> v_target_net ag' = v_target_net (agent L)
             \<and> agent L1 = ag'\<lparr>v_target_net :=
                   smooth (target_smoothing_coeff cfg) (v_target_net (agent L)) (v_net ag')\<rparr>)"
      by blast
  qed
  have c: "while_not_done lib env cfg nzs L = Some (Inr L') \<longrightarrow>
        length (loop_trace lib env cfg nzs L) = steps L' - steps L
        \<and> v_target_net (agent L')
             = foldl (smooth (target_smoothing_coeff cfg)) (v_target_net (agent L))
                 (map (\<lambda>K. v_net (agent K)) (loop_trace lib env cfg nzs L))
        \<and> ((\<forall>K \<in> set (loop_trace lib env cfg nzs L).
                shape (v_net (agent K)) = shape (v_target_net (agent L)))
             \<and> p < length (v_target_net (agent L)) \<and> e < length (v_target_net (agent L) ! p) \<longrightarrow>
             v_target_net (agent L') ! p ! e
               = ema (target_smoothing_coeff cfg) (v_target_net (agent L) ! p ! e)
                   (map (\<lambda>K. v_net (agent K) ! p ! e) (loop_trace lib env cfg nzs L)))"
  proof
    assume w: "while_not_done lib env cfg nzs L = Some (Inr L')"
    let ?tr = "loop_trace lib env cfg nzs L"
    note tr = while_not_done_trace[OF w]
    have cl: "v_target_net (agent L') ! p ! e
               = ema (target_smoothing_coeff cfg) (v_target_net (agent L) ! p ! e)
                   (map (\<lambda>K. v_net (agent K) ! p ! e) ?tr)"
      if h: "(\<forall>K \<in> set ?tr. shape (v_net (agent K)) = shape (v_target_net (agent L)))
             \<and> p < length (v_target_net (agent L)) \<and> e < length (v_target_net (agent L) ! p)"
    proof -
      have "\<forall>P \<in> set (map (\<lambda>K. v_net (agent K)) ?tr). shape P = shape (v_target_net (agent L))"
        using h by simp
      from foldl_smooth_ema[OF this, of p e "target_smoothing_coeff cfg"] h tr
      show ?thesis by (simp add: comp_def)
    qed
    show "length ?tr = steps L' - steps L
        \<and> v_target_net (agent L')
             = foldl (smooth (target_smoothing_coeff cfg)) (v_target_net (agent L))
                 (map (\<lambda>K. v_net (agent K)) ?tr)
        \<and> ((\<forall>K \<in> set ?tr. shape (v_net (agent K)) = shape (v_target_net (agent L)))
             \<and> p < length (v_target_net (agent L)) \<and> e < length (v_target_net (agent L) ! p) \<longrightarrow>
             v_target_net (agent L') ! p ! e
               = ema (target_smoothing_coeff cfg) (v_target_net (agent L) ! p ! e)
                   (map (\<lambda>K. v_net (agent K) ! p ! e) ?tr))"
      using tr cl by blast
  qed
  have d: "smooth c [[t]] [[x]] = [[x * c + t * (1 - c)]]" by simp
  have e1: "foldl (smooth (1 / 2)) [[0]] [[[1]]] = [[1 / 2]]" by simp
  have e2: "foldl (smooth (1 / 2)) [[0]] [[[1]], [[2]]] = [[5 / 4]]" by simp
  have e3: "foldl (smooth (1 / 2)) [[0]] [[[1]], [[2]], [[3]]] = [[17 / 8]]" by simp
  have e4: "ema (1 / 2) 0 [1, 2, 3] = 17 / 8"
    using foldl_ema[of "1 / 2" 0 "[1, 2, 3]", symmetric] by simp
  show ?thesis using a b c d e1 e2 e3 e4 by (intro conjI)
qed


text \<open>
  The small instance: three passes of the loop, in which the value parameter is 1, 2
  and 3 after the optimisation steps, take the target from 0 to 17/8.
\<close>

theorem target_smoothing_ema_witness:
  "main_init tiny_config tiny_env (tiny_layer, tiny_layer, tiny_layer, tiny_layer)
     tiny_qnet tiny_qnet [[0]] [[7]] 0 0 0 = Inr tiny_agent
   \<and> v_target_net tiny_agent = v_net tiny_agent
   \<and> (\<exists>L'. while_not_done tiny_lib tiny_env tiny_config [tiny_noise, tiny_noise, tiny_noise] tiny_loop
              = Some (Inr L')
         \<and> steps L' - steps tiny_loop = 3
         \<and> v_target_net (agent L') = foldl (smooth (1 / 2)) [[0]] [[[1]], [[2]], [[3]]]
         \<and> v_target_net (agent L') ! 0 ! 0 = ema (1 / 2) 0 [1, 2, 3]
         \<and> v_target_net (agent L') = [[17 / 8]])"
proof -
  let ?nzs = "[tiny_noise, tiny_noise, tiny_noise]"
  note th = target_smoothing_ema[where cfg = tiny_config and env = tiny_env and lib = tiny_lib
      and layers = "(tiny_layer, tiny_layer, tiny_layer, tiny_layer)" and ?q1.0 = tiny_qnet
      and ?q2.0 = tiny_qnet and v = "[[0]]" and vt = "[[7]]" and oa = 0 and oq = 0 and ov = 0
      and ag = tiny_agent and nzs = ?nzs and L = tiny_loop and p = 0 and e = 0]
  from tiny_run obtain L' where L': "while_not_done tiny_lib tiny_env tiny_config ?nzs tiny_loop
            = Some (Inr L')" "steps L' = 3" "v_target_net (agent L') = [[17 / 8]]"
    by blast
  have a: "v_target_net tiny_agent = v_net tiny_agent"
    using th[THEN conjunct1] tiny_init by simp
  have tc: "target_smoothing_coeff tiny_config = 1 / 2" "v_target_net (agent tiny_loop) = [[0]]"
    by (simp_all add: tiny_defs)
  have c: "length (loop_trace tiny_lib tiny_env tiny_config ?nzs tiny_loop) = steps L' - steps tiny_loop
        \<and> v_target_net (agent L')
             = foldl (smooth (target_smoothing_coeff tiny_config)) (v_target_net (agent tiny_loop))
                 (map (\<lambda>K. v_net (agent K)) (loop_trace tiny_lib tiny_env tiny_config ?nzs tiny_loop))
        \<and> ((\<forall>K \<in> set (loop_trace tiny_lib tiny_env tiny_config ?nzs tiny_loop).
                shape (v_net (agent K)) = shape (v_target_net (agent tiny_loop)))
             \<and> 0 < length (v_target_net (agent tiny_loop)) \<and> 0 < length (v_target_net (agent tiny_loop) ! 0) \<longrightarrow>
             v_target_net (agent L') ! 0 ! 0
               = ema (target_smoothing_coeff tiny_config) (v_target_net (agent tiny_loop) ! 0 ! 0)
                   (map (\<lambda>K. v_net (agent K) ! 0 ! 0) (loop_trace tiny_lib tiny_env tiny_config ?nzs tiny_loop)))"
    using th[THEN conjunct2, THEN conjunct2, THEN conjunct1, of L'] L'(1) by (rule mp)
  have len: "steps L' - steps tiny_loop = 3"
    using c tiny_trace by (metis length_map length_Cons list.size(3) numeral_3_eq_3)
  have f: "v_target_net (agent L') = foldl (smooth (1 / 2)) [[0]] [[[1]], [[2]], [[3]]]"
    using c tiny_trace tc by simp
  have sh: "\<forall>K \<in> set (loop_trace tiny_lib tiny_env tiny_config ?nzs tiny_loop).
                shape (v_net (agent K)) = shape (v_target_net (agent tiny_loop))"
  proof
    fix K assume "K \<in> set (loop_trace tiny_lib tiny_env tiny_config ?nzs tiny_loop)"
    then have "v_net (agent K) \<in> set (map (\<lambda>K. v_net (agent K))
        (loop_trace tiny_lib tiny_env tiny_config ?nzs tiny_loop))" by simp
    then have "v_net (agent K) \<in> {[[1]], [[2]], [[3]]}" unfolding tiny_trace by simp
    then show "shape (v_net (agent K)) = shape (v_target_net (agent tiny_loop))"
      using tc by (auto simp: shape_def)
  qed
  have m: "map (\<lambda>K. v_net (agent K) ! 0 ! 0) (loop_trace tiny_lib tiny_env tiny_config ?nzs tiny_loop)
        = map (\<lambda>P. P ! 0 ! 0) (map (\<lambda>K. v_net (agent K))
             (loop_trace tiny_lib tiny_env tiny_config ?nzs tiny_loop))"
    by simp
  have pe: "0 < length (v_target_net (agent tiny_loop))"
    "0 < length (v_target_net (agent tiny_loop) ! 0)"
    using tc by simp_all
  have "v_target_net (agent L') ! 0 ! 0
               = ema (target_smoothing_coeff tiny_config) (v_target_net (agent tiny_loop) ! 0 ! 0)
                   (map (\<lambda>K. v_net (agent K) ! 0 ! 0) (loop_trace tiny_lib tiny_env tiny_config ?nzs tiny_loop))"
    using c[THEN conjunct2, THEN conjunct2] sh pe by blast
  then have g: "v_target_net (agent L') ! 0 ! 0 = ema (1 / 2) 0 [1, 2, 3]"
    unfolding m tiny_trace tc by simp
  show ?thesis using tiny_init a L'(1,3) len f g by blast
qed


text \<open>
  Claim C8. With fewer transitions in the buffer than the batch size, the
  optimisation step returns the three losses zero and the agent as it was: the
  policy, both critics, the value network, its target and the three optimizer states.
\<close>

theorem optimize_model_underfilled:
  "ExpReplay_len (memory ag) < train_batch_size cfg \<Longrightarrow>
     optimize_model lib cfg rnd z ag = Some (Inr (ag, 0, 0, 0))"
  by (simp add: optimize_model_def)


theorem optimize_model_underfilled_witness:
  "ExpReplay_len (memory tiny_agent) < train_batch_size tiny_config
   \<and> optimize_model tiny_lib tiny_config id [[0]] tiny_agent = Some (Inr (tiny_agent, 0, 0, 0))"
proof -
  have h: "ExpReplay_len (memory tiny_agent) < train_batch_size tiny_config"
    by (simp add: tiny_defs ExpReplay_len_def ExpReplay_init_def)
  from optimize_model_underfilled[OF h] h show ?thesis by simp
qed

text \<open>
  Claim C9. The action of the evaluation loop is \<open>tanh\<close> of the mean head of the
  policy at the state, times the action bound of the environment, which is the
  action scale that the main block gave the policy and that the optimisation step
  keeps. It takes no random draw, and it is the same for two evaluations at the same
  state whose policies agree on the layers under the mean head and whose
  environments agree on the bound, whatever else differs.
\<close>

theorem evaluate_action_deterministic:
  "evaluate_action cfg env \<pi> st
     = map2 (*) (map tanh (fst (Actor_forward cfg \<pi> st))) (action_space_high env)
   \<and> (action_scale \<pi> = action_space_high env \<longrightarrow>
        evaluate_action cfg env \<pi> st
          = map2 (*) (map tanh (fst (Actor_forward cfg \<pi> st))) (action_scale \<pi>))
   \<and> (Actor.fc1 \<pi>' = Actor.fc1 \<pi> \<and> Actor.fc2 \<pi>' = Actor.fc2 \<pi> \<and> fc_mean \<pi>' = fc_mean \<pi>
        \<and> action_space_high env' = action_space_high env \<longrightarrow>
        evaluate_action cfg' env' \<pi>' st = evaluate_action cfg env \<pi> st)
   \<and> (main_init cfg env layers q1 q2 v vt oa oq ov = Inr ag \<longrightarrow>
        action_scale (policy ag) = action_space_high env)
   \<and> (optimize_model lib cfg r zz ag0 = Some (Inr (ag1, l)) \<longrightarrow>
        action_scale (policy ag1) = action_scale (policy ag0))"
proof -
  have e: "evaluate_action c en p st
     = map2 (*) (map tanh (fst (Actor_forward c p st))) (action_space_high en)" for c p and en :: "'x env"
    by (simp add: evaluate_action_def split: prod.splits)
  have a: "evaluate_action cfg env \<pi> st
     = map2 (*) (map tanh (fst (Actor_forward cfg \<pi> st))) (action_space_high env)"
    by (rule e)
  have b: "action_scale \<pi> = action_space_high env \<longrightarrow>
        evaluate_action cfg env \<pi> st
          = map2 (*) (map tanh (fst (Actor_forward cfg \<pi> st))) (action_scale \<pi>)"
    by (simp add: e)
  have c: "Actor.fc1 \<pi>' = Actor.fc1 \<pi> \<and> Actor.fc2 \<pi>' = Actor.fc2 \<pi> \<and> fc_mean \<pi>' = fc_mean \<pi>
        \<and> action_space_high env' = action_space_high env \<longrightarrow>
        evaluate_action cfg' env' \<pi>' st = evaluate_action cfg env \<pi> st"
    by (simp add: e Actor_forward_mean)
  have d: "main_init cfg env layers q1 q2 v vt oa oq ov = Inr ag \<longrightarrow>
        action_scale (policy ag) = action_space_high env"
    by (rule impI) (rule main_init_action_scale)
  have f: "optimize_model lib cfg r zz ag0 = Some (Inr (ag1, l)) \<longrightarrow>
        action_scale (policy ag1) = action_scale (policy ag0)"
    by (rule impI) (rule optimize_model_action_scale)
  show ?thesis using a b c d f by (intro conjI)
qed

theorem evaluate_action_deterministic_witness:
  "action_scale tiny_actor = action_space_high tiny_env
   \<and> evaluate_action tiny_config tiny_env tiny_actor [3]
        = map2 (*) (map tanh (fst (Actor_forward tiny_config tiny_actor [3]))) (action_scale tiny_actor)
   \<and> Actor.fc1 (tiny_actor\<lparr>fc_logstd := \<lparr>weight = [[5]], bias = [1]\<rparr>\<rparr>) = Actor.fc1 tiny_actor
   \<and> Actor.fc2 (tiny_actor\<lparr>fc_logstd := \<lparr>weight = [[5]], bias = [1]\<rparr>\<rparr>) = Actor.fc2 tiny_actor
   \<and> fc_mean (tiny_actor\<lparr>fc_logstd := \<lparr>weight = [[5]], bias = [1]\<rparr>\<rparr>) = fc_mean tiny_actor
   \<and> evaluate_action default_config tiny_env (tiny_actor\<lparr>fc_logstd := \<lparr>weight = [[5]], bias = [1]\<rparr>\<rparr>) [3]
        = evaluate_action tiny_config tiny_env tiny_actor [3]
   \<and> main_init tiny_config tiny_env (tiny_layer, tiny_layer, tiny_layer, tiny_layer)
        tiny_qnet tiny_qnet [[0]] [[7]] 0 0 0 = Inr tiny_agent
   \<and> action_scale (policy tiny_agent) = action_space_high tiny_env
   \<and> optimize_model tiny_lib tiny_config id [[0]] tiny_agent = Some (Inr (tiny_agent, 0, 0, 0))
   \<and> action_scale (policy tiny_agent) = action_scale (policy tiny_agent)"
proof -
  let ?pi' = "tiny_actor\<lparr>fc_logstd := \<lparr>weight = [[5]], bias = [1]\<rparr>\<rparr>"
  note th = evaluate_action_deterministic[where cfg = tiny_config and env = tiny_env
      and \<pi> = tiny_actor and st = "[3]" and \<pi>' = ?pi' and env' = tiny_env and cfg' = default_config
      and layers = "(tiny_layer, tiny_layer, tiny_layer, tiny_layer)" and ?q1.0 = tiny_qnet
      and ?q2.0 = tiny_qnet and v = "[[0]]" and vt = "[[7]]" and oa = 0 and oq = 0 and ov = 0
      and ag = tiny_agent and lib = tiny_lib and r = id and zz = "[[0]]" and ?ag0.0 = tiny_agent
      and ?ag1.0 = tiny_agent and l = "(0, 0, 0)"]
  have sc: "action_scale tiny_actor = action_space_high tiny_env"
    by (simp add: tiny_defs)
  have o: "optimize_model tiny_lib tiny_config id [[0]] tiny_agent = Some (Inr (tiny_agent, 0, 0, 0))"
    by (simp add: optimize_model_def tiny_defs ExpReplay_len_def ExpReplay_init_def)
  have same: "Actor.fc1 ?pi' = Actor.fc1 tiny_actor" "Actor.fc2 ?pi' = Actor.fc2 tiny_actor"
    "fc_mean ?pi' = fc_mean tiny_actor"
    by simp_all
  show ?thesis using th sc o same tiny_init by simp
qed

text \<open>
  Claim C10. Every component of the action of \<^verbatim>\<open>get_action\<close>, for every state
  and every draw of the noise, is bounded in magnitude by the same component of the
  action scale; so is the action of the evaluation loop by the action bound of the
  environment.
\<close>

theorem action_within_scale:
  "(\<forall>i < length (get_action cfg \<pi> st eps). \<bar>get_action cfg \<pi> st eps ! i\<bar> \<le> \<bar>action_scale \<pi> ! i\<bar>)
   \<and> (\<forall>i < length (evaluate_action cfg env \<pi> st).
          \<bar>evaluate_action cfg env \<pi> st ! i\<bar> \<le> \<bar>action_space_high env ! i\<bar>)"
proof -
  have a: "\<bar>get_action cfg \<pi> st eps ! i\<bar> \<le> \<bar>action_scale \<pi> ! i\<bar>"
    if "i < length (get_action cfg \<pi> st eps)" for i
    using that
    by (simp add: get_action_def Let_def tanh_scaled_bound split: prod.splits)
  have b: "\<bar>evaluate_action cfg env \<pi> st ! i\<bar> \<le> \<bar>action_space_high env ! i\<bar>"
    if "i < length (evaluate_action cfg env \<pi> st)" for i
    using that
    by (simp add: evaluate_action_def Let_def tanh_scaled_bound split: prod.splits)
  show ?thesis using a b by blast
qed


theorem action_within_scale_witness:
  "get_action default_config
      \<lparr>Actor.fc1 = \<lparr>weight = [[0]], bias = [0]\<rparr>, Actor.fc2 = \<lparr>weight = [[0]], bias = [0]\<rparr>,
       fc_mean = \<lparr>weight = [[0]], bias = [0]\<rparr>, fc_logstd = \<lparr>weight = [[0]], bias = [0]\<rparr>,
       output_size = 1, action_scale = [2]\<rparr> [1] [0] = [0]
   \<and> \<bar>get_action default_config
      \<lparr>Actor.fc1 = \<lparr>weight = [[0]], bias = [0]\<rparr>, Actor.fc2 = \<lparr>weight = [[0]], bias = [0]\<rparr>,
       fc_mean = \<lparr>weight = [[0]], bias = [0]\<rparr>, fc_logstd = \<lparr>weight = [[0]], bias = [0]\<rparr>,
       output_size = 1, action_scale = [2]\<rparr> [1] [0] ! 0\<bar> \<le> \<bar>[2::real] ! 0\<bar>"
proof -
  let ?pi = "\<lparr>Actor.fc1 = \<lparr>weight = [[0]], bias = [0]\<rparr>, Actor.fc2 = \<lparr>weight = [[0]], bias = [0]\<rparr>,
       fc_mean = \<lparr>weight = [[0]], bias = [0]\<rparr>, fc_logstd = \<lparr>weight = [[0]], bias = [0]\<rparr>,
       output_size = 1, action_scale = [2]\<rparr>"
  have g: "get_action default_config ?pi [1] [0] = [0]"
    by (simp add: get_action_def Actor_forward_def linear_def relu_def clamp_def
        Normal_sample_def default_config_def)
  have "\<forall>i < length (get_action default_config ?pi [1] [0]).
          \<bar>get_action default_config ?pi [1] [0] ! i\<bar> \<le> \<bar>action_scale ?pi ! i\<bar>"
    using action_within_scale[of default_config ?pi "[1]" "[0]"] by (rule conjunct1)
  then have "\<bar>get_action default_config ?pi [1] [0] ! 0\<bar> \<le> \<bar>action_scale ?pi ! 0\<bar>"
    using g by simp
  then show ?thesis using g by simp
qed


end
